theory Spec2Isabelle
  imports Main "HOL-Library.AList"
begin

section \<open>The image cache of \<^verbatim>\<open>src/index.tsx\<close>\<close>

text \<open>
  The class \<^verbatim>\<open>ImageCache\<close> keeps one entry per URI, hands every download to the
  file system module (\<^verbatim>\<open>react-native-fs\<close>) and continues in promise callbacks.
  The embedding is a state machine: a public method is one event, and the settling of
  one outstanding promise is one event. The callbacks run one at a time (JavaScript has
  a single thread of control), so a run of the program is a list of events.

  What the class cannot decide is a parameter: the cache directory, the hash function,
  the random generator, the properties that the index object inherits and the handlers
  that throw are fields of \<open>Env\<close>; the outcome of an existence check or of a download
  is carried by the event that settles it.
\<close>

subsection \<open>Strings\<close>

text \<open>
  A string is the list of its code units; the characters searched for are ASCII.

  \<^verbatim>\<open>String.prototype.indexOf\<close> and \<^verbatim>\<open>lastIndexOf\<close>, for a search string of one
  character (the only use in the source): the position, or \<open>-1\<close>.
\<close>

fun indexOf :: "string \<Rightarrow> char \<Rightarrow> int" where
  "indexOf [] c = - 1"
| "indexOf (x # xs) c =
     (if x = c then 0 else (let r = indexOf xs c in if r = - 1 then - 1 else r + 1))"

definition lastIndexOf :: "string \<Rightarrow> char \<Rightarrow> int" where
  "lastIndexOf s c =
     (let r = indexOf (rev s) c in if r = - 1 then - 1 else int (length s) - 1 - r)"

text \<open>
  \<^verbatim>\<open>String.prototype.substring(start, end)\<close>: both arguments are clamped to
  \<open>[0, length]\<close>, and they are swapped when the first is the larger one.
\<close>

definition substring2 :: "string \<Rightarrow> int \<Rightarrow> int \<Rightarrow> string" where
  "substring2 s a b =
     (let n = int (length s);
          a' = max 0 (min a n);
          b' = max 0 (min b n);
          lo = min a' b';
          hi = max a' b'
      in take (nat (hi - lo)) (drop (nat lo) s))"

definition substring1 :: "string \<Rightarrow> int \<Rightarrow> string" where
  "substring1 s a = substring2 s a (int (length s))"

subsection \<open>The environment and path naming\<close>

text \<open>A handler is a function compared by reference: its identity is a number.\<close>

type_synonym CacheHandler = nat

record Env =
  BASE_DIR :: string
  SHA1 :: "string \<Rightarrow> string"
  s4 :: "nat \<Rightarrow> string"
  inherited :: "string list"
  throws :: "CacheHandler \<Rightarrow> bool"

text \<open>
  \<open>s4 env n\<close> is what the \<open>n\<close>-th call of \<^verbatim>\<open>s4()\<close> returns; the state counts the
  calls made so far. \<open>SHA1 env u\<close> is the hexadecimal text that \<^verbatim>\<open>SHA1(uri)\<close>
  becomes under string concatenation.

  \<open>inherited env\<close> lists the names of the properties that the index, a plain object,
  inherits from \<^verbatim>\<open>Object.prototype\<close> (\<^verbatim>\<open>constructor\<close>, \<^verbatim>\<open>toString\<close>, \<dots>): the
  value found under such a name is a function or an object, so it counts as true, and it
  has none of the fields of an entry. \<open>throws env h\<close> holds when the handler \<open>h\<close>
  throws an exception when it is called.

  The first three lines of \<^verbatim>\<open>getPath\<close> compute the extension \<^verbatim>\<open>ext\<close>.
\<close>

definition getPath_ext :: "string \<Rightarrow> string" where
  "getPath_ext uri =
     (let path = substring1 uri (lastIndexOf uri CHR ''/'');
          path = (if indexOf path CHR ''?'' = - 1 then path
                  else substring2 path (lastIndexOf path CHR ''.'') (indexOf path CHR ''?''))
      in if indexOf path CHR ''.'' = - 1 then ''.jpg''
         else substring1 path (indexOf path CHR ''.''))"

text \<open>
  \<^verbatim>\<open>getPath(uri, immutable)\<close> returns the path and the number of random draws made
  so far. The flag is optional in the source and compared with \<^verbatim>\<open>=== true\<close>.
\<close>

definition getPath :: "Env \<Rightarrow> string \<Rightarrow> bool option \<Rightarrow> nat \<Rightarrow> string \<times> nat" where
  "getPath env uri immutable n =
     (let ext = getPath_ext uri
      in if immutable = Some True
         then (BASE_DIR env @ ''/'' @ SHA1 env uri @ ext, n)
         else (BASE_DIR env @ ''/'' @ s4 env n @ s4 env (n + 1) @ ''-'' @ s4 env (n + 2)
                 @ ''-'' @ s4 env (n + 3) @ ''-'' @ s4 env (n + 4) @ ''-'' @ s4 env (n + 5)
                 @ s4 env (n + 6) @ s4 env (n + 7) @ ext, n + 8))"

subsection \<open>Entries and the state\<close>

record CachedImageURISource =
  uri :: string
  "method" :: "string option"
  headers :: "(string \<times> string) list option"

text \<open>
  \<open>task\<close> holds the job id of the download (\<^verbatim>\<open>cache.task.jobId\<close>); \<open>None\<close> is
  both \<^verbatim>\<open>undefined\<close> and \<^verbatim>\<open>null\<close>, which the source only tests for truth. The
  file system module numbers its jobs; the state holds the next number.
\<close>

record CacheEntry =
  source :: CachedImageURISource
  handlers :: "CacheHandler list"
  path :: "string option"
  immutable :: bool
  task :: "nat option"

text \<open>The calls made on the file system module, in order.\<close>

datatype fs_call =
    Mkdir string
  | DownloadFile nat string string "(string \<times> string) list"
  | Exists string
  | Unlink string
  | StopDownload nat

text \<open>
  The outstanding promises, each with what its callbacks have captured:
  \<^item> \<open>PExists k uri\<close>: the existence check of \<^verbatim>\<open>get\<close>, with the entry \<open>k\<close> and the URI;
  \<^item> \<open>PDownload j k uri p\<close>: the download with job id \<open>j\<close> of \<^verbatim>\<open>download\<close>, with the
    entry \<open>k\<close>, its URI and the destination \<open>p\<close>;
  \<^item> \<open>PVerify k uri p\<close>: the existence check that follows a download that succeeded.

  An entry object is named by the key it is stored under: the methods modelled here
  never remove or replace an entry (\<^verbatim>\<open>clear\<close>, which drops the whole index, is not
  part of the model), so the object a callback has captured is the object under that key.
\<close>

datatype pending = PExists string string | PDownload nat string string string | PVerify string string string

text \<open>
  \<open>cache\<close> holds the entries of the index, its own properties. \<open>thrown\<close> counts
  the exceptions that have left a public method, and \<open>inherited_path\<close> lists the
  inherited names on whose value \<^verbatim>\<open>bust\<close> has written the field \<^verbatim>\<open>path\<close>.
\<close>

record state =
  cache :: "string \<rightharpoonup> CacheEntry"
  promises :: "pending list"
  next_job :: nat
  draws :: nat
  fs_log :: "fs_call list"
  delivered :: "(CacheHandler \<times> string option) list"
  thrown :: nat
  inherited_path :: "string list"

text \<open>The constructor creates the directory; the index is empty.\<close>

definition init :: "Env \<Rightarrow> state" where
  "init env = \<lparr>cache = Map.empty, promises = [], next_job = 0, draws = 0,
     fs_log = [Mkdir (BASE_DIR env)], delivered = [], thrown = 0, inherited_path = []\<rparr>"

text \<open>
  \<^verbatim>\<open>this.cache[uri]\<close> finds an entry of the index, or else the inherited value when
  \<open>uri\<close> is the name of an inherited property; \<open>inherited_only\<close> is the second case.
\<close>

definition inherited_only :: "Env \<Rightarrow> state \<Rightarrow> string \<Rightarrow> bool" where
  "inherited_only env s u \<longleftrightarrow> cache s u = None \<and> u \<in> set (inherited env)"

text \<open>An exception leaves a public method.\<close>

definition threw :: "state \<Rightarrow> state" where
  "threw s = s\<lparr>thrown := Suc (thrown s)\<rparr>"

subsection \<open>The methods\<close>

text \<open>
  The loop of \<^verbatim>\<open>notify\<close>: \<^verbatim>\<open>forEach\<close> calls the handlers in list order with the
  path, and ends with the first one that throws. The result is the list of the calls made
  and whether an exception ended the loop.
\<close>

fun call_all :: "Env \<Rightarrow> CacheHandler list \<Rightarrow> string option \<Rightarrow> (CacheHandler \<times> string option) list \<times> bool" where
  "call_all env [] p = ([], False)"
| "call_all env (h # hs) p =
     (if throws env h then ([(h, p)], True)
      else (let (ds, t) = call_all env hs p in ((h, p) # ds, t)))"

text \<open>
  \<^verbatim>\<open>notify(uri)\<close> calls the handlers of the entry with the path the entry has then;
  \<open>delivered\<close> records each call with its argument. The second component says whether
  an exception has left \<^verbatim>\<open>notify\<close>: that of a handler, or that of reading a field of
  a missing entry, with nothing delivered. A handler does not call back into the cache.
\<close>

definition notify :: "Env \<Rightarrow> string \<Rightarrow> state \<Rightarrow> state \<times> bool" where
  "notify env u s =
     (case cache s u of
        None \<Rightarrow> (s, True)
      | Some e \<Rightarrow>
          (let (ds, t) = call_all env (handlers e) (path e)
           in (s\<lparr>delivered := delivered s @ ds\<rparr>, t)))"

text \<open>The headers of the request: \<^verbatim>\<open>{method, ...(source.headers || {})}\<close>.\<close>

definition request_headers :: "CachedImageURISource \<Rightarrow> (string \<times> string) list" where
  "request_headers src =
     (let m = (case method src of None \<Rightarrow> ''GET'' | Some m \<Rightarrow> if m = [] then ''GET'' else m);
          hs = (case headers src of None \<Rightarrow> [] | Some hs \<Rightarrow> hs)
      in fold (\<lambda>(k, v). AList.update k v) hs [(''method'', m)])"

text \<open>
  \<^verbatim>\<open>download(cache)\<close>: nothing when the entry has a task; otherwise the path is
  computed, the download is started and its handle stored in the entry.
\<close>

definition download :: "Env \<Rightarrow> string \<Rightarrow> state \<Rightarrow> state" where
  "download env k s =
     (case cache s k of
        None \<Rightarrow> s
      | Some e \<Rightarrow>
          if task e \<noteq> None then s
          else
            (let u = uri (source e);
                 (p, n) = getPath env u (Some (immutable e)) (draws s);
                 j = next_job s
             in s\<lparr>cache := (cache s)(k \<mapsto> e\<lparr>task := Some j\<rparr>),
                  promises := promises s @ [PDownload j k u p],
                  next_job := Suc j,
                  draws := n,
                  fs_log := fs_log s @ [DownloadFile j u p (request_headers (source e))]\<rparr>))"

text \<open>
  The \<^verbatim>\<open>catch\<close> callback of \<^verbatim>\<open>download\<close>, run when the download has
  failed: the handle is cleared and the file at the destination deleted.
\<close>

definition download_catch :: "string \<Rightarrow> string \<Rightarrow> state \<Rightarrow> state" where
  "download_catch k p s =
     (case cache s k of
        None \<Rightarrow> s\<lparr>fs_log := fs_log s @ [Unlink p]\<rparr>
      | Some e \<Rightarrow> s\<lparr>cache := (cache s)(k \<mapsto> e\<lparr>task := None\<rparr>), fs_log := fs_log s @ [Unlink p]\<rparr>)"

text \<open>
  \<^verbatim>\<open>get(uri)\<close>: with a path that is set (and not the empty string), an existence
  check is started; otherwise \<^verbatim>\<open>download\<close> is called. \<open>None\<close> is an exception, with
  the state as it was: that of reading \<^verbatim>\<open>cache.path\<close> where the index has nothing, or
  that of \<^verbatim>\<open>download\<close> reading \<^verbatim>\<open>source.uri\<close> of an inherited value, which has
  neither path nor source.
\<close>

definition get :: "Env \<Rightarrow> string \<Rightarrow> state \<Rightarrow> state option" where
  "get env u s =
     (case cache s u of
        None \<Rightarrow> None
      | Some e \<Rightarrow>
          (case path e of
             None \<Rightarrow> Some (download env u s)
           | Some p \<Rightarrow>
               if p = [] then Some (download env u s)
               else Some (s\<lparr>promises := promises s @ [PExists u u],
                            fs_log := fs_log s @ [Exists p]\<rparr>)))"

text \<open>
  \<^verbatim>\<open>on(source, handler, immutable)\<close>: \<open>on_entry\<close> is its conditional, which
  creates the entry where the index has nothing or appends the handler to the entry; then
  \<^verbatim>\<open>get\<close> is called. For an immutable entry the path is computed when the entry is
  created. Where the lookup finds an inherited value, the conditional takes the second
  branch, \<^verbatim>\<open>handlers\<close> of that value is undefined and \<^verbatim>\<open>push\<close> throws: nothing is
  changed and \<^verbatim>\<open>get\<close> is not reached.
\<close>

definition on_entry :: "Env \<Rightarrow> CachedImageURISource \<Rightarrow> CacheHandler \<Rightarrow> bool option \<Rightarrow> state \<Rightarrow> state" where
  "on_entry env src handler imm s =
     (let u = uri src
      in if inherited_only env s u then s
         else
           (case cache s u of
              None \<Rightarrow>
                if imm = Some True
                then (let (p, n) = getPath env u imm (draws s)
                      in s\<lparr>cache := (cache s)(u \<mapsto>
                             \<lparr>source = src, handlers = [handler], path = Some p,
                              immutable = True, task = None\<rparr>),
                           draws := n\<rparr>)
                else s\<lparr>cache := (cache s)(u \<mapsto>
                        \<lparr>source = src, handlers = [handler], path = None,
                         immutable = False, task = None\<rparr>)\<rparr>
            | Some e \<Rightarrow> s\<lparr>cache := (cache s)(u \<mapsto> e\<lparr>handlers := handlers e @ [handler]\<rparr>)\<rparr>))"

definition on :: "Env \<Rightarrow> CachedImageURISource \<Rightarrow> CacheHandler \<Rightarrow> bool option \<Rightarrow> state \<Rightarrow> state" where
  "on env src handler imm s =
     (if inherited_only env s (uri src) then threw s
      else
        (let s1 = on_entry env src handler imm s
         in case get env (uri src) s1 of None \<Rightarrow> threw s1 | Some s2 \<Rightarrow> s2))"

text \<open>\<^verbatim>\<open>splice(index, 1)\<close>: the element at \<open>index\<close> is removed, if there is one.\<close>

definition splice1 :: "nat \<Rightarrow> 'a list \<Rightarrow> 'a list" where
  "splice1 index xs = take index xs @ drop (Suc index) xs"

text \<open>
  The loop of \<^verbatim>\<open>dispose\<close>: \<^verbatim>\<open>forEach\<close> reads the length once, visits the indices
  \<open>0, 1, \<dots>\<close> below it, and skips an index that is no longer in the array; the
  callback removes the element it is visiting from that same array.
\<close>

function dispose_loop :: "CacheHandler list \<Rightarrow> CacheHandler \<Rightarrow> nat \<Rightarrow> nat \<Rightarrow> CacheHandler list" where
  "dispose_loop hs handler index len =
     (if index < len
      then (if index < length hs \<and> hs ! index = handler
            then dispose_loop (splice1 index hs) handler (Suc index) len
            else dispose_loop hs handler (Suc index) len)
      else hs)"
  by pat_completeness auto
termination
  by (relation "measure (\<lambda>(hs, handler, index, len). len - index)") auto

declare dispose_loop.simps [simp del]

text \<open>
  \<^verbatim>\<open>dispose(uri, handler)\<close>: nothing where the index has nothing. An inherited value
  passes the test, its \<^verbatim>\<open>handlers\<close> is undefined and \<^verbatim>\<open>forEach\<close> throws.
\<close>

definition dispose :: "Env \<Rightarrow> string \<Rightarrow> CacheHandler \<Rightarrow> state \<Rightarrow> state" where
  "dispose env u handler s =
     (if inherited_only env s u then threw s
      else
        (case cache s u of
           None \<Rightarrow> s
         | Some e \<Rightarrow>
             s\<lparr>cache := (cache s)(u \<mapsto>
                  e\<lparr>handlers := dispose_loop (handlers e) handler 0 (length (handlers e))\<rparr>)\<rparr>))"

text \<open>
  \<^verbatim>\<open>bust(uri)\<close>: nothing where the index has nothing, and nothing for an immutable
  entry. An inherited value passes the test (it is not \<^verbatim>\<open>undefined\<close>, and its
  \<^verbatim>\<open>immutable\<close> is): \<^verbatim>\<open>path\<close> is written on that value, and \<^verbatim>\<open>get\<close> throws.
\<close>

definition bust :: "Env \<Rightarrow> string \<Rightarrow> state \<Rightarrow> state" where
  "bust env u s =
     (if inherited_only env s u
      then (let s1 = s\<lparr>inherited_path := inherited_path s @ [u]\<rparr>
            in case get env u s1 of None \<Rightarrow> threw s1 | Some s2 \<Rightarrow> s2)
      else
        (case cache s u of
           None \<Rightarrow> s
         | Some e \<Rightarrow>
             if immutable e then s
             else (let s1 = s\<lparr>cache := (cache s)(u \<mapsto> e\<lparr>path := None\<rparr>)\<rparr>
                   in case get env u s1 of None \<Rightarrow> threw s1 | Some s2 \<Rightarrow> s2)))"

text \<open>
  \<^verbatim>\<open>cancel(uri)\<close>: nothing without an entry that has a task; an inherited value has
  no task.
\<close>

definition cancel :: "string \<Rightarrow> state \<Rightarrow> state" where
  "cancel u s =
     (case cache s u of
        None \<Rightarrow> s
      | Some e \<Rightarrow>
          (case task e of
             None \<Rightarrow> s
           | Some j \<Rightarrow> s\<lparr>fs_log := fs_log s @ [StopDownload j]\<rparr>))"

subsection \<open>The promise callbacks\<close>

text \<open>
  The callback of the existence check in \<^verbatim>\<open>get\<close>. The promise has no \<^verbatim>\<open>catch\<close>:
  an exception of \<^verbatim>\<open>notify\<close> there is lost with it, after the calls already made.
\<close>

definition get_then :: "Env \<Rightarrow> string \<Rightarrow> string \<Rightarrow> bool \<Rightarrow> state \<Rightarrow> state" where
  "get_then env k u exists s =
     (if exists then fst (notify env u s)
      else download env k s)"

text \<open>
  The first \<^verbatim>\<open>then\<close> of \<^verbatim>\<open>download\<close>, run when the download has succeeded: the
  handle is cleared, the path stored, and the existence of the file asked for.
\<close>

definition download_then :: "string \<Rightarrow> string \<Rightarrow> string \<Rightarrow> state \<Rightarrow> state" where
  "download_then k u p s =
     (let s1 = (case cache s k of
                  None \<Rightarrow> s
                | Some e \<Rightarrow> s\<lparr>cache := (cache s)(k \<mapsto> e\<lparr>task := None, path := Some p\<rparr>)\<rparr>)
      in s1\<lparr>promises := promises s1 @ [PVerify k u p], fs_log := fs_log s1 @ [Exists p]\<rparr>)"

text \<open>
  The second \<^verbatim>\<open>then\<close>, run with the answer of that check. The \<^verbatim>\<open>catch\<close> of the
  chain stands behind both: an exception of \<^verbatim>\<open>notify\<close>, which a handler may throw,
  reaches it, and it clears the task the entry has by then and deletes the file.
\<close>

definition download_verified :: "Env \<Rightarrow> string \<Rightarrow> string \<Rightarrow> string \<Rightarrow> bool \<Rightarrow> state \<Rightarrow> state" where
  "download_verified env k u p exists s =
     (if \<not> exists then s
      else (let (s1, t) = notify env u s
            in if t then download_catch k p s1 else s1))"

text \<open>
  \<open>settle env i b s\<close> settles the \<open>i\<close>-th outstanding promise and runs its
  callback: an existence check with the answer \<open>b\<close>, a download with success
  (\<open>b\<close>) or with failure, which is also how a cancelled download ends.
\<close>

definition settle :: "Env \<Rightarrow> nat \<Rightarrow> bool \<Rightarrow> state \<Rightarrow> state" where
  "settle env i b s =
     (if length (promises s) \<le> i then s
      else
        (let s0 = s\<lparr>promises := splice1 i (promises s)\<rparr>
         in case promises s ! i of
              PExists k u \<Rightarrow> get_then env k u b s0
            | PDownload j k u p \<Rightarrow> if b then download_then k u p s0 else download_catch k p s0
            | PVerify k u p \<Rightarrow> download_verified env k u p b s0))"

text \<open>
  \<open>reject i s\<close> rejects the \<open>i\<close>-th outstanding promise when it is an existence
  check (a download is rejected by \<open>settle\<close> with \<open>False\<close>). The existence check of
  \<^verbatim>\<open>get\<close> has no handler for that. A rejected existence check in the chain of
  \<^verbatim>\<open>download\<close> skips the second \<^verbatim>\<open>then\<close> and reaches the \<^verbatim>\<open>catch\<close>.
\<close>

definition reject :: "nat \<Rightarrow> state \<Rightarrow> state" where
  "reject i s =
     (if length (promises s) \<le> i then s
      else
        (let s0 = s\<lparr>promises := splice1 i (promises s)\<rparr>
         in case promises s ! i of
              PExists k u \<Rightarrow> s0
            | PDownload j k u p \<Rightarrow> s
            | PVerify k u p \<Rightarrow> download_catch k p s0))"

subsection \<open>Runs\<close>

datatype event =
    On CachedImageURISource CacheHandler "bool option"
  | Dispose string CacheHandler
  | Bust string
  | Cancel string
  | Settle nat bool
  | Reject nat

fun step :: "Env \<Rightarrow> event \<Rightarrow> state \<Rightarrow> state" where
  "step env (On src handler imm) s = on env src handler imm s"
| "step env (Dispose u handler) s = dispose env u handler s"
| "step env (Bust u) s = bust env u s"
| "step env (Cancel u) s = cancel u s"
| "step env (Settle i b) s = settle env i b s"
| "step env (Reject i) s = reject i s"

fun run :: "Env \<Rightarrow> event list \<Rightarrow> state \<Rightarrow> state" where
  "run env [] s = s"
| "run env (ev # evs) s = run env evs (step env ev s)"

text \<open>The number of downloads started so far.\<close>

definition issued :: "state \<Rightarrow> nat" where
  "issued s = length (filter (\<lambda>c. case c of DownloadFile j u p hs \<Rightarrow> True | _ \<Rightarrow> False) (fs_log s))"

text \<open>What a promise has captured, and the downloads of the entry \<open>k\<close> still running.\<close>

fun entry_of :: "pending \<Rightarrow> string" where
  "entry_of (PExists k u) = k"
| "entry_of (PDownload j k u p) = k"
| "entry_of (PVerify k u p) = k"

fun uri_of :: "pending \<Rightarrow> string" where
  "uri_of (PExists k u) = u"
| "uri_of (PDownload j k u p) = u"
| "uri_of (PVerify k u p) = u"

fun dest_of :: "pending \<Rightarrow> string" where
  "dest_of (PExists k u) = []"
| "dest_of (PDownload j k u p) = p"
| "dest_of (PVerify k u p) = p"

fun is_download :: "pending \<Rightarrow> bool" where
  "is_download (PDownload j k u p) = True"
| "is_download _ = False"

definition in_flight :: "string \<Rightarrow> state \<Rightarrow> pending list" where
  "in_flight k s = filter (\<lambda>p. is_download p \<and> entry_of p = k) (promises s)"

text \<open>The events other than the rejection of an existence check.\<close>

fun regular :: "event \<Rightarrow> bool" where
  "regular (Reject i) = False"
| "regular _ = True"

text \<open>The calls \<^verbatim>\<open>on\<close> and \<^verbatim>\<open>bust\<close> for the URI \<open>u\<close>.\<close>

fun call_on :: "string \<Rightarrow> event \<Rightarrow> bool" where
  "call_on u (On src handler imm) = (uri src = u)"
| "call_on u (Bust u') = (u' = u)"
| "call_on u _ = False"

subsection \<open>Invariants of the runs\<close>

text \<open>
  An entry is stored under the URI of its source, and every outstanding promise belongs
  to an entry of the index, whose key is the URI it has captured.
\<close>

definition keyed :: "state \<Rightarrow> bool" where
  "keyed s \<longleftrightarrow>
     (\<forall>k e. cache s k = Some e \<longrightarrow> uri (source e) = k) \<and>
     (\<forall>p \<in> set (promises s). uri_of p = entry_of p \<and> cache s (entry_of p) \<noteq> None)"

text \<open>An entry has at most one download running, and none when it has no task.\<close>

definition one_flight :: "state \<Rightarrow> bool" where
  "one_flight s \<longleftrightarrow>
     (\<forall>k. length (in_flight k s) \<le> 1 \<and>
          (\<forall>e. cache s k = Some e \<longrightarrow> task e = None \<longrightarrow> in_flight k s = []))"

text \<open>An entry with a task has a download running.\<close>

definition task_flight :: "state \<Rightarrow> bool" where
  "task_flight s \<longleftrightarrow>
     (\<forall>k e. cache s k = Some e \<longrightarrow> task e \<noteq> None \<longrightarrow> in_flight k s \<noteq> [])"

text \<open>
  The path of an immutable entry, and the destination of each of its downloads, is the
  path that \<^verbatim>\<open>getPath\<close> gives its URI.
\<close>

definition immutable_path :: "Env \<Rightarrow> string \<Rightarrow> string" where
  "immutable_path env u = fst (getPath env u (Some True) 0)"

definition imm_ok :: "Env \<Rightarrow> state \<Rightarrow> bool" where
  "imm_ok env s \<longleftrightarrow>
     (\<forall>k e. cache s k = Some e \<longrightarrow> immutable e \<longrightarrow>
          path e = Some (immutable_path env (uri (source e)))) \<and>
     (\<forall>p \<in> set (promises s). \<forall>e. is_download p \<longrightarrow> cache s (entry_of p) = Some e \<longrightarrow>
          immutable e \<longrightarrow> dest_of p = immutable_path env (uri (source e)))"

subsection \<open>A concrete environment\<close>

text \<open>
  The hash and the random generator are constant, no handler throws, and the inherited
  names are those of \<^verbatim>\<open>Object.prototype\<close>.
\<close>

definition example_env :: Env where
  "example_env = \<lparr>BASE_DIR = ''/c'', SHA1 = (\<lambda>u. ''h''), s4 = (\<lambda>n. ''0000''),
     inherited = [''constructor'', ''__proto__'', ''hasOwnProperty'', ''isPrototypeOf'',
       ''propertyIsEnumerable'', ''toLocaleString'', ''toString'', ''valueOf'',
       ''__defineGetter__'', ''__defineSetter__'', ''__lookupGetter__'', ''__lookupSetter__''],
     throws = (\<lambda>h. False)\<rparr>"

definition example_source :: CachedImageURISource where
  "example_source = \<lparr>uri = ''u'', method = None, headers = None\<rparr>"

text \<open>The state after one registration, of a mutable and of an immutable entry.\<close>

definition example_mutable :: state where
  "example_mutable = run example_env [On example_source 1 None] (init example_env)"

definition example_immutable :: state where
  "example_immutable = run example_env [On example_source 1 (Some True)] (init example_env)"

section \<open>Lemmas\<close>

subsection \<open>Evaluation and path naming\<close>

lemmas example_defs = example_env_def example_source_def example_mutable_def example_immutable_def

lemmas method_defs = init_def on_def on_entry_def get_def download_def settle_def bust_def
  notify_def getPath_def request_headers_def get_then_def download_then_def
  download_verified_def download_catch_def splice1_def Let_def cancel_def dispose_def
  issued_def in_flight_def inherited_only_def threw_def reject_def

lemma example_ext: "getPath_ext ''u'' = ''.jpg''"
  by code_simp

lemma getPath_immutable:
  "getPath env u (Some True) n = (BASE_DIR env @ ''/'' @ SHA1 env u @ getPath_ext u, n)"
  by (simp add: getPath_def)

lemma immutable_path_eq: "immutable_path env u = BASE_DIR env @ ''/'' @ SHA1 env u @ getPath_ext u"
  by (simp add: immutable_path_def getPath_immutable)

text \<open>A path that \<^verbatim>\<open>getPath\<close> returns is not the empty string, which would count as unset.\<close>

lemma getPath_nonempty: "fst (getPath env u imm n) \<noteq> []"
  by (simp add: getPath_def Let_def)

lemma run_append: "run env (evs @ evs') s = run env evs' (run env evs s)"
  by (induction evs arbitrary: s) simp_all

subsection \<open>What the methods and callbacks change\<close>

lemma set_splice1: "set (splice1 i xs) \<subseteq> set xs"
  unfolding splice1_def by (metis Un_least set_append set_drop_subset set_take_subset)

lemma in_splice1: "p \<in> set (splice1 i xs) \<Longrightarrow> p \<in> set xs"
  using set_splice1[of i xs] by auto

lemma download_launch:
  "cache s k = Some e \<Longrightarrow> task e = None \<Longrightarrow>
   cache (download env k s) = (cache s)(k \<mapsto> e\<lparr>task := Some (next_job s)\<rparr>)
   \<and> promises (download env k s) = promises s @ [PDownload (next_job s) k (uri (source e))
             (fst (getPath env (uri (source e)) (Some (immutable e)) (draws s)))]
   \<and> delivered (download env k s) = delivered s
   \<and> next_job (download env k s) = Suc (next_job s)
   \<and> fs_log (download env k s) = fs_log s @ [DownloadFile (next_job s) (uri (source e))
             (fst (getPath env (uri (source e)) (Some (immutable e)) (draws s)))
             (request_headers (source e))]"
  by (simp add: download_def Let_def split: prod.splits)

lemma download_same:
  "cache s k = None \<or> (\<exists>e. cache s k = Some e \<and> task e \<noteq> None) \<Longrightarrow> download env k s = s"
  by (auto simp: download_def)

lemma download_effect:
  obtains (same) "download env k s = s"
  | (launch) e where "cache s k = Some e" and "task e = None"
      and "cache (download env k s) = (cache s)(k \<mapsto> e\<lparr>task := Some (next_job s)\<rparr>)"
      and "promises (download env k s) = promises s @ [PDownload (next_job s) k (uri (source e))
             (fst (getPath env (uri (source e)) (Some (immutable e)) (draws s)))]"
      and "delivered (download env k s) = delivered s"
      and "fs_log (download env k s) = fs_log s @ [DownloadFile (next_job s) (uri (source e))
             (fst (getPath env (uri (source e)) (Some (immutable e)) (draws s)))
             (request_headers (source e))]"
proof (cases "cache s k")
  case None
  then show ?thesis using same download_same by blast
next
  case (Some e)
  show ?thesis
  proof (cases "task e")
    case None
    from download_launch[OF Some None, of env] show ?thesis using launch[OF Some None] by blast
  next
    case (Some j)
    with \<open>cache s k = Some e\<close> show ?thesis using same download_same[of s k env] by auto
  qed
qed

lemma notify_effect:
  "cache (fst (notify env u s)) = cache s \<and> promises (fst (notify env u s)) = promises s
   \<and> fs_log (fst (notify env u s)) = fs_log s"
  by (simp add: notify_def Let_def split: option.splits prod.splits)

lemma call_all_quiet:
  "\<forall>h \<in> set hs. \<not> throws env h \<Longrightarrow> call_all env hs p = (map (\<lambda>h. (h, p)) hs, False)"
  by (induction hs) simp_all

lemma notify_quiet:
  "cache s u = Some e \<Longrightarrow> \<forall>h \<in> set (handlers e). \<not> throws env h \<Longrightarrow>
   notify env u s = (s\<lparr>delivered := delivered s @ map (\<lambda>h. (h, path e)) (handlers e)\<rparr>, False)"
  by (simp add: notify_def call_all_quiet)

lemma threw_effect:
  "cache (threw s) = cache s \<and> promises (threw s) = promises s \<and> fs_log (threw s) = fs_log s
   \<and> delivered (threw s) = delivered s"
  by (simp add: threw_def)

lemma on_shape:
  "on env src h imm s = threw s
   \<or> on env src h imm s = threw (on_entry env src h imm s)
   \<or> get env (uri src) (on_entry env src h imm s) = Some (on env src h imm s)"
  by (simp add: on_def Let_def split: option.splits)

lemma on_own:
  "cache s (uri src) = Some e \<Longrightarrow>
   get env (uri src) (s\<lparr>cache := (cache s)(uri src \<mapsto> e\<lparr>handlers := handlers e @ [h]\<rparr>)\<rparr>)
     = Some (on env src h imm s)"
  by (simp add: on_def on_entry_def inherited_only_def get_def Let_def split: option.splits)

lemma bust_shape:
  "bust env u s = s
   \<or> bust env u s = threw (s\<lparr>inherited_path := inherited_path s @ [u]\<rparr>)
   \<or> (\<exists>e. cache s u = Some e \<and> \<not> immutable e \<and>
         get env u (s\<lparr>cache := (cache s)(u \<mapsto> e\<lparr>path := None\<rparr>)\<rparr>) = Some (bust env u s))"
  by (simp add: bust_def inherited_only_def get_def Let_def split: option.splits)

lemma download_catch_effect:
  "promises (download_catch k p s) = promises s \<and> delivered (download_catch k p s) = delivered s
   \<and> fs_log (download_catch k p s) = fs_log s @ [Unlink p]
   \<and> cache (download_catch k p s) = (case cache s k of None \<Rightarrow> cache s | Some e \<Rightarrow> (cache s)(k \<mapsto> e\<lparr>task := None\<rparr>))"
  by (simp add: download_catch_def split: option.splits)

lemma download_then_effect:
  "promises (download_then k u p s) = promises s @ [PVerify k u p] \<and> delivered (download_then k u p s) = delivered s
   \<and> fs_log (download_then k u p s) = fs_log s @ [Exists p]
   \<and> cache (download_then k u p s) = (case cache s k of None \<Rightarrow> cache s | Some e \<Rightarrow> (cache s)(k \<mapsto> e\<lparr>task := None, path := Some p\<rparr>))"
  by (simp add: download_then_def Let_def split: option.splits)

subsection \<open>Entries and promises are keyed by the URI\<close>

lemma keyed_init: "keyed (init env)"
  by (simp add: keyed_def init_def)

lemma keyed_notify: "keyed s \<Longrightarrow> keyed (fst (notify env u s))"
  using notify_effect[of env u s] by (simp add: keyed_def)

lemma keyed_threw: "keyed s \<Longrightarrow> keyed (threw s)"
  by (simp add: threw_def keyed_def)

lemma keyed_download: "keyed s \<Longrightarrow> keyed (download env k s)"
  by (cases env k s rule: download_effect) (auto simp: keyed_def)

lemma keyed_download_catch: "keyed s \<Longrightarrow> keyed (download_catch k p s)"
  using download_catch_effect[of k p s] by (auto simp: keyed_def split: option.splits)

lemma keyed_get: "get env u s = Some s' \<Longrightarrow> keyed s \<Longrightarrow> keyed s'"
proof -
  assume g: "get env u s = Some s'" and K: "keyed s"
  then obtain e where e: "cache s u = Some e" by (auto simp: get_def split: option.splits)
  show ?thesis
  proof (cases "path e = None \<or> path e = Some []")
    case True
    with g e have "s' = download env u s" by (auto simp: get_def)
    with K show ?thesis by (simp add: keyed_download)
  next
    case False
    then obtain p where "path e = Some p" "p \<noteq> []" by auto
    with g e have "s' = s\<lparr>promises := promises s @ [PExists u u], fs_log := fs_log s @ [Exists p]\<rparr>"
      by (auto simp: get_def)
    with K e show ?thesis by (auto simp: keyed_def)
  qed
qed


text \<open>\<^verbatim>\<open>get\<close> does not throw where \<^verbatim>\<open>on\<close> and \<^verbatim>\<open>bust\<close> call it: the entry is there.\<close>

lemma get_defined: "cache s u \<noteq> None \<Longrightarrow> get env u s \<noteq> None"
  by (auto simp: get_def split: option.splits)

lemma keyed_on_entry: "keyed s \<Longrightarrow> keyed (on_entry env src h imm s)"
  by (auto simp: on_entry_def Let_def keyed_def split: option.splits prod.splits)

lemma keyed_on: "keyed s \<Longrightarrow> keyed (on env src h imm s)"
  using on_shape[of env src h imm s] keyed_on_entry[of s env src h imm]
    keyed_get[of env "uri src" "on_entry env src h imm s" "on env src h imm s"]
  by (auto simp: keyed_threw)

lemma keyed_dispose: "keyed s \<Longrightarrow> keyed (dispose env u h s)"
  by (auto simp: dispose_def threw_def keyed_def split: option.splits)

lemma keyed_cancel: "keyed s \<Longrightarrow> keyed (cancel u s)"
  by (auto simp: cancel_def keyed_def split: option.splits)

lemma keyed_bust: "keyed s \<Longrightarrow> keyed (bust env u s)"
proof -
  assume K: "keyed s"
  have K1: "keyed (s\<lparr>cache := (cache s)(u \<mapsto> e\<lparr>path := None\<rparr>)\<rparr>)" if "cache s u = Some e" for e
    using K that by (auto simp: keyed_def)
  have K2: "keyed (threw (s\<lparr>inherited_path := inherited_path s @ [u]\<rparr>))"
    using K by (simp add: keyed_def threw_def)
  from bust_shape[of env u s] K K1 K2 keyed_get show ?thesis by metis
qed

lemma keyed_splice: "keyed s \<Longrightarrow> keyed (s\<lparr>promises := splice1 i (promises s)\<rparr>)"
  using in_splice1 by (fastforce simp: keyed_def)

lemma keyed_get_then: "keyed s \<Longrightarrow> keyed (get_then env k u b s)"
  by (simp add: get_then_def keyed_notify keyed_download)

lemma keyed_download_then: "keyed s \<Longrightarrow> u = k \<Longrightarrow> cache s k \<noteq> None \<Longrightarrow> keyed (download_then k u p s)"
  using download_then_effect[of k u p s] by (auto simp: keyed_def split: option.splits)

lemma keyed_download_verified: "keyed s \<Longrightarrow> keyed (download_verified env k u p b s)"
  by (simp add: download_verified_def case_prod_beta keyed_notify keyed_download_catch)

lemma keyed_settle: "keyed s \<Longrightarrow> keyed (settle env i b s)"
proof (cases "length (promises s) \<le> i")
  case True
  assume "keyed s" with True show ?thesis by (simp add: settle_def)
next
  case False
  assume K: "keyed s"
  let ?s0 = "s\<lparr>promises := splice1 i (promises s)\<rparr>"
  have K0: "keyed ?s0" using K by (rule keyed_splice)
  from False have mem: "promises s ! i \<in> set (promises s)" by simp
  show ?thesis
  proof (cases "promises s ! i")
    case (PExists k u)
    with False K0 show ?thesis by (simp add: settle_def Let_def keyed_get_then)
  next
    case (PDownload j k u p)
    with mem K have "u = k" "cache ?s0 k \<noteq> None" by (auto simp: keyed_def)
    with PDownload False K0 show ?thesis
      by (simp add: settle_def Let_def keyed_download_then keyed_download_catch)
  next
    case (PVerify k u p)
    with False K0 show ?thesis by (simp add: settle_def Let_def keyed_download_verified)
  qed
qed

lemma keyed_reject: "keyed s \<Longrightarrow> keyed (reject i s)"
proof (cases "length (promises s) \<le> i")
  case True
  assume "keyed s" with True show ?thesis by (simp add: reject_def)
next
  case False
  assume K: "keyed s"
  have K0: "keyed (s\<lparr>promises := splice1 i (promises s)\<rparr>)" using K by (rule keyed_splice)
  show ?thesis
    using False K K0 by (cases "promises s ! i") (simp_all add: reject_def Let_def keyed_download_catch)
qed

lemma keyed_step: "keyed s \<Longrightarrow> keyed (step env ev s)"
  by (cases ev)
    (simp_all add: keyed_on keyed_dispose keyed_bust keyed_cancel keyed_settle keyed_reject)

lemma keyed_run: "keyed s \<Longrightarrow> keyed (run env evs s)"
  by (induction evs arbitrary: s) (simp_all add: keyed_step)


subsection \<open>One download for an entry\<close>

lemma filter_splice1_empty:
  assumes "i < length xs" and "P (xs ! i)" and "length (filter P xs) \<le> 1"
  shows "filter P (splice1 i xs) = []"
proof -
  have "xs = take i xs @ xs ! i # drop (Suc i) xs"
    using assms(1) by (rule id_take_nth_drop)
  then have "filter P xs = filter P (take i xs) @ xs ! i # filter P (drop (Suc i) xs)"
    using assms(2) by (metis filter.simps(2) filter_append)
  with assms(3) have "filter P (take i xs) = [] \<and> filter P (drop (Suc i) xs) = []"
    by simp
  then show ?thesis by (simp add: splice1_def)
qed

lemma filter_splice1_le: "length (filter P (splice1 i xs)) \<le> length (filter P xs)"
proof (cases "i < length xs")
  case True
  then have "xs = take i xs @ xs ! i # drop (Suc i) xs"
    by (rule id_take_nth_drop)
  then have "filter P xs = filter P (take i xs) @ filter P [xs ! i] @ filter P (drop (Suc i) xs)"
    by (metis append_Cons append_Nil filter_append)
  then show ?thesis by (simp add: splice1_def)
next
  case False
  then show ?thesis by (simp add: splice1_def)
qed

lemma filter_splice1_nil: "filter P xs = [] \<Longrightarrow> filter P (splice1 i xs) = []"
  using in_splice1 by (fastforce simp: filter_empty_conv)


lemma one_flight_init: "one_flight (init env)"
  by (simp add: one_flight_def in_flight_def init_def)

lemma one_flight_notify: "one_flight s \<Longrightarrow> one_flight (fst (notify env u s))"
  using notify_effect[of env u s] by (simp add: one_flight_def in_flight_def)

lemma one_flight_threw: "one_flight s \<Longrightarrow> one_flight (threw s)"
  by (simp add: threw_def one_flight_def in_flight_def)

lemma one_flight_download: "one_flight s \<Longrightarrow> one_flight (download env k s)"
proof (cases env k s rule: download_effect)
  case same
  assume "one_flight s" with same show ?thesis by simp
next
  case (launch e)
  assume F: "one_flight s"
  from F launch(1,2) have nil: "in_flight k s = []" unfolding one_flight_def by blast
  have other: "in_flight k' (download env k s) = in_flight k' s" if "k' \<noteq> k" for k'
    using that launch(4) by (simp add: in_flight_def)
  have this_one: "length (in_flight k (download env k s)) = 1"
    using nil launch(4) by (simp add: in_flight_def)
  show ?thesis
    unfolding one_flight_def
  proof (intro allI conjI impI)
    fix k'
    from F have "length (in_flight k' s) \<le> 1" unfolding one_flight_def by blast
    then show "length (in_flight k' (download env k s)) \<le> 1"
      using this_one other by (cases "k' = k") simp_all
  next
    fix k' e'
    assume c: "cache (download env k s) k' = Some e'" and t: "task e' = None"
    from c t launch(3) have ne: "k' \<noteq> k" by auto
    with c launch(3) have "cache s k' = Some e'" by simp
    with F t have "in_flight k' s = []" unfolding one_flight_def by blast
    with other[OF ne] show "in_flight k' (download env k s) = []" by simp
  qed
qed

lemma one_flight_download_catch:
  "one_flight s \<Longrightarrow> in_flight k s = [] \<Longrightarrow> one_flight (download_catch k p s)"
  using download_catch_effect[of k p s]
  by (auto simp: one_flight_def in_flight_def split: option.splits if_splits)

lemma one_flight_download_then:
  "one_flight s \<Longrightarrow> in_flight k s = [] \<Longrightarrow> one_flight (download_then k u p s)"
  using download_then_effect[of k u p s]
  by (auto simp: one_flight_def in_flight_def split: option.splits if_splits)

lemma one_flight_get: "get env u s = Some s' \<Longrightarrow> one_flight s \<Longrightarrow> one_flight s'"
proof -
  assume g: "get env u s = Some s'" and F: "one_flight s"
  then obtain e where e: "cache s u = Some e" by (auto simp: get_def split: option.splits)
  show ?thesis
  proof (cases "path e = None \<or> path e = Some []")
    case True
    with g e have "s' = download env u s" by (auto simp: get_def)
    with F show ?thesis by (simp add: one_flight_download)
  next
    case False
    then obtain p where "path e = Some p" "p \<noteq> []" by auto
    with g e have "s' = s\<lparr>promises := promises s @ [PExists u u], fs_log := fs_log s @ [Exists p]\<rparr>"
      by (auto simp: get_def)
    with F show ?thesis by (simp add: one_flight_def in_flight_def)
  qed
qed

lemma keyed_in_flight_nil: "keyed s \<Longrightarrow> cache s k = None \<Longrightarrow> in_flight k s = []"
  by (auto simp: keyed_def in_flight_def filter_empty_conv)

lemma one_flight_on_entry: "keyed s \<Longrightarrow> one_flight s \<Longrightarrow> one_flight (on_entry env src h imm s)"
  using keyed_in_flight_nil[of s "uri src"]
  by (auto simp: on_entry_def Let_def one_flight_def in_flight_def split: option.splits prod.splits)

lemma one_flight_on: "keyed s \<Longrightarrow> one_flight s \<Longrightarrow> one_flight (on env src h imm s)"
  using on_shape[of env src h imm s] one_flight_on_entry[of s env src h imm]
    one_flight_get[of env "uri src" "on_entry env src h imm s" "on env src h imm s"]
  by (auto simp: one_flight_threw)

lemma one_flight_dispose: "one_flight s \<Longrightarrow> one_flight (dispose env u h s)"
  by (auto simp: dispose_def threw_def one_flight_def in_flight_def split: option.splits)

lemma one_flight_cancel: "one_flight s \<Longrightarrow> one_flight (cancel u s)"
  by (auto simp: cancel_def one_flight_def in_flight_def split: option.splits)

lemma one_flight_bust: "one_flight s \<Longrightarrow> one_flight (bust env u s)"
proof -
  assume F: "one_flight s"
  have F1: "one_flight (s\<lparr>cache := (cache s)(u \<mapsto> e\<lparr>path := None\<rparr>)\<rparr>)" if "cache s u = Some e" for e
    using F that by (auto simp: one_flight_def in_flight_def)
  have F2: "one_flight (threw (s\<lparr>inherited_path := inherited_path s @ [u]\<rparr>))"
    using F by (simp add: one_flight_def in_flight_def threw_def)
  from bust_shape[of env u s] F F1 F2 one_flight_get show ?thesis by metis
qed

lemma in_flight_splice:
  "length (in_flight k (s\<lparr>promises := splice1 i (promises s)\<rparr>)) \<le> length (in_flight k s)"
  "in_flight k s = [] \<Longrightarrow> in_flight k (s\<lparr>promises := splice1 i (promises s)\<rparr>) = []"
  by (simp_all add: in_flight_def filter_splice1_le filter_splice1_nil)

lemma one_flight_splice: "one_flight s \<Longrightarrow> one_flight (s\<lparr>promises := splice1 i (promises s)\<rparr>)"
proof -
  assume F: "one_flight s"
  show ?thesis
    unfolding one_flight_def
  proof (intro allI conjI impI)
    fix k
    from F have "length (in_flight k s) \<le> 1" unfolding one_flight_def by blast
    with in_flight_splice(1)[where k=k and s=s and i=i]
    show "length (in_flight k (s\<lparr>promises := splice1 i (promises s)\<rparr>)) \<le> 1" by simp
  next
    fix k e
    assume "cache (s\<lparr>promises := splice1 i (promises s)\<rparr>) k = Some e" and "task e = None"
    with F have "in_flight k s = []" unfolding one_flight_def by simp
    then show "in_flight k (s\<lparr>promises := splice1 i (promises s)\<rparr>) = []"
      by (rule in_flight_splice(2))
  qed
qed

lemma in_flight_splice_download:
  assumes "i < length (promises s)" and "promises s ! i = PDownload j k u p"
    and "one_flight s"
  shows "in_flight k (s\<lparr>promises := splice1 i (promises s)\<rparr>) = []"
proof -
  from assms(3) have "length (filter (\<lambda>p. is_download p \<and> entry_of p = k) (promises s)) \<le> 1"
    unfolding one_flight_def in_flight_def by blast
  with assms(1,2) have "filter (\<lambda>p. is_download p \<and> entry_of p = k) (splice1 i (promises s)) = []"
    by (intro filter_splice1_empty) simp_all
  then show ?thesis by (simp add: in_flight_def)
qed

lemma one_flight_get_then: "one_flight s \<Longrightarrow> one_flight (get_then env k u b s)"
  by (simp add: get_then_def one_flight_notify one_flight_download)

text \<open>
  Where no handler throws, \<^verbatim>\<open>notify\<close> returns for an entry of the index, and the second
  \<^verbatim>\<open>then\<close> does not reach the \<^verbatim>\<open>catch\<close>.
\<close>

lemma notify_returns: "cache s u \<noteq> None \<Longrightarrow> \<forall>h. \<not> throws env h \<Longrightarrow> \<not> snd (notify env u s)"
  by (auto simp: notify_quiet)

lemma one_flight_download_verified:
  "one_flight s \<Longrightarrow> cache s u \<noteq> None \<Longrightarrow> \<forall>h. \<not> throws env h \<Longrightarrow>
   one_flight (download_verified env k u p b s)"
  using notify_returns[of s u env]
  by (simp add: download_verified_def case_prod_beta one_flight_notify)

lemma one_flight_settle:
  "\<forall>h. \<not> throws env h \<Longrightarrow> keyed s \<Longrightarrow> one_flight s \<Longrightarrow> one_flight (settle env i b s)"
proof (cases "length (promises s) \<le> i")
  case True
  assume "one_flight s" with True show ?thesis by (simp add: settle_def)
next
  case False
  assume Q: "\<forall>h. \<not> throws env h" and K: "keyed s" and F: "one_flight s"
  let ?s0 = "s\<lparr>promises := splice1 i (promises s)\<rparr>"
  have F0: "one_flight ?s0" using F by (rule one_flight_splice)
  from False have mem: "promises s ! i \<in> set (promises s)" by simp
  show ?thesis
  proof (cases "promises s ! i")
    case (PExists k u)
    with False F0 show ?thesis by (simp add: settle_def Let_def one_flight_get_then)
  next
    case (PDownload j k u p)
    with False F have "in_flight k ?s0 = []" by (intro in_flight_splice_download) simp_all
    with PDownload False F0 show ?thesis
      by (simp add: settle_def Let_def one_flight_download_then one_flight_download_catch)
  next
    case (PVerify k u p)
    with mem K have "cache ?s0 u \<noteq> None" by (auto simp: keyed_def)
    with PVerify False F0 Q show ?thesis by (simp add: settle_def Let_def one_flight_download_verified)
  qed
qed

lemma one_flight_step:
  "\<forall>h. \<not> throws env h \<Longrightarrow> regular ev \<Longrightarrow> keyed s \<Longrightarrow> one_flight s \<Longrightarrow> one_flight (step env ev s)"
  by (cases ev)
    (simp_all add: one_flight_on one_flight_dispose one_flight_bust one_flight_cancel one_flight_settle)

lemma one_flight_run:
  "\<forall>h. \<not> throws env h \<Longrightarrow> list_all regular evs \<Longrightarrow> keyed s \<Longrightarrow> one_flight s \<Longrightarrow>
   one_flight (run env evs s)"
  by (induction evs arbitrary: s) (simp_all add: one_flight_step keyed_step)


subsection \<open>A task means a running download\<close>

lemma in_flight_splice_other:
  assumes "i < length (promises s)" and "\<not> (is_download (promises s ! i) \<and> entry_of (promises s ! i) = k)"
  shows "in_flight k (s\<lparr>promises := splice1 i (promises s)\<rparr>) = in_flight k s"
proof -
  let ?P = "\<lambda>p. is_download p \<and> entry_of p = k"
  have "promises s = take i (promises s) @ promises s ! i # drop (Suc i) (promises s)"
    using assms(1) by (rule id_take_nth_drop)
  then have "filter ?P (promises s)
      = filter ?P (take i (promises s)) @ filter ?P [promises s ! i] @ filter ?P (drop (Suc i) (promises s))"
    by (metis append_Cons append_Nil filter_append)
  with assms(2) show ?thesis by (simp add: in_flight_def splice1_def)
qed

lemma task_flight_init: "task_flight (init env)"
  by (simp add: task_flight_def init_def)

lemma task_flight_notify: "task_flight s \<Longrightarrow> task_flight (fst (notify env u s))"
  using notify_effect[of env u s] by (simp add: task_flight_def in_flight_def)

lemma task_flight_threw: "task_flight s \<Longrightarrow> task_flight (threw s)"
  by (simp add: threw_def task_flight_def in_flight_def)

lemma task_flight_download: "task_flight s \<Longrightarrow> task_flight (download env k s)"
proof (cases env k s rule: download_effect)
  case same
  assume "task_flight s" with same show ?thesis by simp
next
  case (launch e)
  assume T: "task_flight s"
  show ?thesis
    unfolding task_flight_def
  proof (intro allI impI)
    fix k' e'
    assume c: "cache (download env k s) k' = Some e'" and t: "task e' \<noteq> None"
    show "in_flight k' (download env k s) \<noteq> []"
    proof (cases "k' = k")
      case True
      then show ?thesis using launch(4) by (simp add: in_flight_def)
    next
      case False
      with c launch(3) have "cache s k' = Some e'" by simp
      with T t have "in_flight k' s \<noteq> []" unfolding task_flight_def by blast
      then show ?thesis using launch(4) by (simp add: in_flight_def)
    qed
  qed
qed

lemma task_flight_cleared:
  "task_flight s \<Longrightarrow> cache s k = Some e \<Longrightarrow> task_flight (s\<lparr>cache := (cache s)(k \<mapsto> e\<lparr>task := None\<rparr>)\<rparr>)"
  by (auto simp: task_flight_def in_flight_def)

lemma task_flight_download_catch: "task_flight s \<Longrightarrow> task_flight (download_catch k p s)"
  using download_catch_effect[of k p s]
  by (auto simp: task_flight_def in_flight_def split: option.splits if_splits)

lemma task_flight_download_then: "task_flight s \<Longrightarrow> task_flight (download_then k u p s)"
  using download_then_effect[of k u p s]
  by (auto simp: task_flight_def in_flight_def split: option.splits if_splits)

lemma task_flight_get: "get env u s = Some s' \<Longrightarrow> task_flight s \<Longrightarrow> task_flight s'"
proof -
  assume g: "get env u s = Some s'" and T: "task_flight s"
  then obtain e where e: "cache s u = Some e" by (auto simp: get_def split: option.splits)
  show ?thesis
  proof (cases "path e = None \<or> path e = Some []")
    case True
    with g e have "s' = download env u s" by (auto simp: get_def)
    with T show ?thesis by (simp add: task_flight_download)
  next
    case False
    then obtain p where "path e = Some p" "p \<noteq> []" by auto
    with g e have "s' = s\<lparr>promises := promises s @ [PExists u u], fs_log := fs_log s @ [Exists p]\<rparr>"
      by (auto simp: get_def)
    with T show ?thesis by (simp add: task_flight_def in_flight_def)
  qed
qed

lemma task_flight_on_entry: "task_flight s \<Longrightarrow> task_flight (on_entry env src h imm s)"
  by (auto simp: on_entry_def Let_def task_flight_def in_flight_def split: option.splits prod.splits)

lemma task_flight_on: "task_flight s \<Longrightarrow> task_flight (on env src h imm s)"
  using on_shape[of env src h imm s] task_flight_on_entry[of s env src h imm]
    task_flight_get[of env "uri src" "on_entry env src h imm s" "on env src h imm s"]
  by (auto simp: task_flight_threw)

lemma task_flight_dispose: "task_flight s \<Longrightarrow> task_flight (dispose env u h s)"
  by (auto simp: dispose_def threw_def task_flight_def in_flight_def split: option.splits)

lemma task_flight_cancel: "task_flight s \<Longrightarrow> task_flight (cancel u s)"
  by (auto simp: cancel_def task_flight_def in_flight_def split: option.splits)

lemma task_flight_bust: "task_flight s \<Longrightarrow> task_flight (bust env u s)"
proof -
  assume T: "task_flight s"
  have T1: "task_flight (s\<lparr>cache := (cache s)(u \<mapsto> e\<lparr>path := None\<rparr>)\<rparr>)" if "cache s u = Some e" for e
    using T that by (auto simp: task_flight_def in_flight_def)
  have T2: "task_flight (threw (s\<lparr>inherited_path := inherited_path s @ [u]\<rparr>))"
    using T by (simp add: task_flight_def in_flight_def threw_def)
  from bust_shape[of env u s] T T1 T2 task_flight_get show ?thesis by metis
qed

lemma task_flight_get_then: "task_flight s \<Longrightarrow> task_flight (get_then env k u b s)"
  by (simp add: get_then_def task_flight_notify task_flight_download)

lemma task_flight_download_verified:
  "task_flight s \<Longrightarrow> task_flight (download_verified env k u p b s)"
  by (simp add: download_verified_def case_prod_beta task_flight_notify task_flight_download_catch)

lemma task_flight_splice:
  assumes "task_flight s" and "i < length (promises s)" and "\<not> is_download (promises s ! i)"
  shows "task_flight (s\<lparr>promises := splice1 i (promises s)\<rparr>)"
proof -
  have "in_flight k (s\<lparr>promises := splice1 i (promises s)\<rparr>) = in_flight k s" for k
    using in_flight_splice_other[OF assms(2), of k] assms(3) by simp
  with assms(1) show ?thesis by (simp add: task_flight_def)
qed

lemma task_flight_settled:
  assumes T: "task_flight s" and i: "i < length (promises s)"
    and p: "promises s ! i = PDownload j k u p"
  shows "task_flight (download_catch k p (s\<lparr>promises := splice1 i (promises s)\<rparr>))"
    and "task_flight (download_then k u p (s\<lparr>promises := splice1 i (promises s)\<rparr>))"
proof -
  let ?s0 = "s\<lparr>promises := splice1 i (promises s)\<rparr>"
  have other: "in_flight k' ?s0 = in_flight k' s" if "k' \<noteq> k" for k'
    using in_flight_splice_other[OF i, of k'] p that by simp
  show "task_flight (download_catch k p ?s0)"
    unfolding task_flight_def
  proof (intro allI impI)
    fix k' e'
    assume c: "cache (download_catch k p ?s0) k' = Some e'" and t: "task e' \<noteq> None"
    show "in_flight k' (download_catch k p ?s0) \<noteq> []"
    proof (cases "k' = k")
      case True
      with c t download_catch_effect[of k p ?s0] have False
        by (auto split: option.splits)
      then show ?thesis ..
    next
      case False
      with c download_catch_effect[of k p ?s0] have "cache s k' = Some e'"
        by (auto split: option.splits)
      with T t have "in_flight k' s \<noteq> []" unfolding task_flight_def by blast
      with other[OF False] have "in_flight k' ?s0 \<noteq> []" by simp
      then show ?thesis using download_catch_effect[of k p ?s0] by (simp add: in_flight_def)
    qed
  qed
  show "task_flight (download_then k u p ?s0)"
    unfolding task_flight_def
  proof (intro allI impI)
    fix k' e'
    assume c: "cache (download_then k u p ?s0) k' = Some e'" and t: "task e' \<noteq> None"
    show "in_flight k' (download_then k u p ?s0) \<noteq> []"
    proof (cases "k' = k")
      case True
      with c t download_then_effect[of k u p ?s0] have False
        by (auto split: option.splits)
      then show ?thesis ..
    next
      case False
      with c download_then_effect[of k u p ?s0] have "cache s k' = Some e'"
        by (auto split: option.splits)
      with T t have "in_flight k' s \<noteq> []" unfolding task_flight_def by blast
      with other[OF False] have "in_flight k' ?s0 \<noteq> []" by simp
      then show ?thesis using download_then_effect[of k u p ?s0] by (simp add: in_flight_def)
    qed
  qed
qed

lemma task_flight_settle: "task_flight s \<Longrightarrow> task_flight (settle env i b s)"
proof (cases "length (promises s) \<le> i")
  case True
  assume "task_flight s" with True show ?thesis by (simp add: settle_def)
next
  case False
  assume T: "task_flight s"
  from False have i: "i < length (promises s)" by simp
  show ?thesis
  proof (cases "promises s ! i")
    case (PExists k u)
    with T i have "task_flight (s\<lparr>promises := splice1 i (promises s)\<rparr>)"
      by (intro task_flight_splice) simp_all
    with PExists False show ?thesis by (simp add: settle_def Let_def task_flight_get_then)
  next
    case (PVerify k u p)
    with T i have "task_flight (s\<lparr>promises := splice1 i (promises s)\<rparr>)"
      by (intro task_flight_splice) simp_all
    with PVerify False show ?thesis by (simp add: settle_def Let_def task_flight_download_verified)
  next
    case (PDownload j k u p)
    with False task_flight_settled[OF T i PDownload] show ?thesis
      by (simp add: settle_def Let_def)
  qed
qed

lemma task_flight_reject: "task_flight s \<Longrightarrow> task_flight (reject i s)"
proof (cases "length (promises s) \<le> i")
  case True
  assume "task_flight s" with True show ?thesis by (simp add: reject_def)
next
  case False
  assume T: "task_flight s"
  from False have i: "i < length (promises s)" by simp
  show ?thesis
  proof (cases "promises s ! i")
    case (PExists k u)
    with T i have "task_flight (s\<lparr>promises := splice1 i (promises s)\<rparr>)"
      by (intro task_flight_splice) simp_all
    with PExists False show ?thesis by (simp add: reject_def Let_def)
  next
    case (PVerify k u p)
    with T i have "task_flight (s\<lparr>promises := splice1 i (promises s)\<rparr>)"
      by (intro task_flight_splice) simp_all
    with PVerify False show ?thesis by (simp add: reject_def Let_def task_flight_download_catch)
  next
    case (PDownload j k u p)
    with False T show ?thesis by (simp add: reject_def Let_def)
  qed
qed

lemma task_flight_step: "task_flight s \<Longrightarrow> task_flight (step env ev s)"
  by (cases ev)
    (simp_all add: task_flight_on task_flight_dispose task_flight_bust task_flight_cancel
      task_flight_settle task_flight_reject)

lemma task_flight_run: "task_flight s \<Longrightarrow> task_flight (run env evs s)"
  by (induction evs arbitrary: s) (simp_all add: task_flight_step)

subsection \<open>Calls while a download is running\<close>

lemma get_pending:
  assumes "cache s u = Some e" and "task e \<noteq> None"
  shows "\<exists>s'. get env u s = Some s' \<and> cache s' = cache s \<and> issued s' = issued s
           \<and> in_flight k s' = in_flight k s \<and> delivered s' = delivered s"
proof (cases "path e = None \<or> path e = Some []")
  case True
  with assms have "get env u s = Some s" by (auto simp: get_def download_def)
  then show ?thesis by simp
next
  case False
  then obtain p where "path e = Some p" "p \<noteq> []" by auto
  with assms have "get env u s = Some (s\<lparr>promises := promises s @ [PExists u u], fs_log := fs_log s @ [Exists p]\<rparr>)"
    by (simp add: get_def)
  then show ?thesis by (simp add: issued_def in_flight_def)
qed

lemma call_pending:
  assumes "cache s u = Some e" and "task e \<noteq> None" and "call_on u ev"
  shows "issued (step env ev s) = issued s \<and> in_flight u (step env ev s) = in_flight u s
         \<and> (\<exists>e'. cache (step env ev s) u = Some e' \<and> task e' = task e)"
proof (cases ev)
  case (On src h imm)
  with assms(3) have u: "uri src = u" by simp
  let ?s1 = "s\<lparr>cache := (cache s)(u \<mapsto> e\<lparr>handlers := handlers e @ [h]\<rparr>)\<rparr>"
  have on: "get env u ?s1 = Some (on env src h imm s)"
    using assms(1) u on_own[of s src e env h imm] by simp
  have "cache ?s1 u = Some (e\<lparr>handlers := handlers e @ [h]\<rparr>)" by simp
  moreover have "task (e\<lparr>handlers := handlers e @ [h]\<rparr>) \<noteq> None" using assms(2) by simp
  ultimately obtain s' where "get env u ?s1 = Some s'" "cache s' = cache ?s1" "issued s' = issued ?s1"
    "in_flight u s' = in_flight u ?s1"
    using get_pending[of ?s1 u "e\<lparr>handlers := handlers e @ [h]\<rparr>" env u] by blast
  then show ?thesis using On on by (simp add: issued_def in_flight_def)
next
  case (Bust u')
  with assms(3) have u: "u' = u" by simp
  show ?thesis
  proof (cases "immutable e")
    case True
    with assms(1) Bust u show ?thesis by (simp add: bust_def inherited_only_def)
  next
    case False
    let ?s1 = "s\<lparr>cache := (cache s)(u \<mapsto> e\<lparr>path := None\<rparr>)\<rparr>"
    have b: "bust env u s = (case get env u ?s1 of None \<Rightarrow> threw ?s1 | Some s2 \<Rightarrow> s2)"
      using assms(1) False by (simp add: bust_def inherited_only_def Let_def)
    have "cache ?s1 u = Some (e\<lparr>path := None\<rparr>)" by simp
    moreover have "task (e\<lparr>path := None\<rparr>) \<noteq> None" using assms(2) by simp
    ultimately obtain s' where "get env u ?s1 = Some s'" "cache s' = cache ?s1" "issued s' = issued ?s1"
      "in_flight u s' = in_flight u ?s1"
      using get_pending[of ?s1 u "e\<lparr>path := None\<rparr>" env u] by blast
    then show ?thesis using Bust u b by (simp add: issued_def in_flight_def)
  qed
qed (use assms(3) in simp_all)

lemma calls_pending:
  "cache s u = Some e \<Longrightarrow> task e \<noteq> None \<Longrightarrow> list_all (call_on u) calls \<Longrightarrow>
   issued (run env calls s) = issued s \<and> in_flight u (run env calls s) = in_flight u s
   \<and> (\<exists>e'. cache (run env calls s) u = Some e' \<and> task e' = task e)"
proof (induction calls arbitrary: s e)
  case Nil
  then show ?case by simp
next
  case (Cons ev calls)
  from Cons.prems have ev: "call_on u ev" and rest: "list_all (call_on u) calls" by simp_all
  from call_pending[OF Cons.prems(1,2) ev, of env]
  obtain e' where st: "issued (step env ev s) = issued s" "in_flight u (step env ev s) = in_flight u s"
    "cache (step env ev s) u = Some e'" "task e' = task e" by blast
  from st(4) Cons.prems(2) have "task e' \<noteq> None" by simp
  from Cons.IH[OF st(3) this rest] st show ?case by simp
qed

lemma two_mutable:
  "imm \<noteq> Some True \<Longrightarrow> uri src \<notin> set (inherited env) \<Longrightarrow>
   issued (run env [On src h1 imm, On src h2 imm2] (init env)) = 1"
  by (simp add: init_def on_def on_entry_def inherited_only_def get_def download_def Let_def
      issued_def split: prod.splits)

lemma two_immutable:
  "uri src \<notin> set (inherited env) \<Longrightarrow>
   issued (run env [On src h1 (Some True), On src h2 imm2] (init env)) = 0
   \<and> issued (run env [On src h1 (Some True), On src h2 imm2, Settle 0 False, Settle 0 False]
        (init env)) = 1"
  by (simp add: init_def on_def on_entry_def inherited_only_def get_def download_def Let_def
      issued_def settle_def get_then_def splice1_def getPath_def split: prod.splits)

subsection \<open>The path of an immutable entry\<close>

lemma imm_ok_init: "imm_ok env (init env)"
  by (simp add: imm_ok_def init_def)

lemma imm_ok_notify: "imm_ok env s \<Longrightarrow> imm_ok env (fst (notify env' u s))"
  using notify_effect[of env' u s] by (simp add: imm_ok_def)

lemma imm_ok_threw: "imm_ok env s \<Longrightarrow> imm_ok env (threw s)"
  by (simp add: threw_def imm_ok_def)

lemma getPath_fst_immutable: "fst (getPath env u (Some True) n) = immutable_path env u"
  by (simp add: immutable_path_def getPath_immutable)

lemma imm_ok_download: "imm_ok env s \<Longrightarrow> imm_ok env (download env k s)"
proof (cases env k s rule: download_effect)
  case same
  assume "imm_ok env s" with same show ?thesis by simp
next
  case (launch e)
  assume I: "imm_ok env s"
  show ?thesis
    unfolding imm_ok_def launch(3,4)
    using I launch(1) by (auto simp: imm_ok_def getPath_fst_immutable)
qed

lemma imm_ok_download_catch: "imm_ok env s \<Longrightarrow> imm_ok env (download_catch k p s)"
  using download_catch_effect[of k p s] by (auto simp: imm_ok_def split: option.splits)

lemma imm_ok_download_then:
  "imm_ok env s \<Longrightarrow> (\<forall>e. cache s k = Some e \<longrightarrow> immutable e \<longrightarrow> p = immutable_path env (uri (source e)))
   \<Longrightarrow> imm_ok env (download_then k u p s)"
  using download_then_effect[of k u p s] by (auto simp: imm_ok_def split: option.splits)

lemma imm_ok_get: "get env u s = Some s' \<Longrightarrow> imm_ok env s \<Longrightarrow> imm_ok env s'"
proof -
  assume g: "get env u s = Some s'" and I: "imm_ok env s"
  then obtain e where e: "cache s u = Some e" by (auto simp: get_def split: option.splits)
  show ?thesis
  proof (cases "path e = None \<or> path e = Some []")
    case True
    with g e have "s' = download env u s" by (auto simp: get_def)
    with I show ?thesis by (simp add: imm_ok_download)
  next
    case False
    then obtain p where "path e = Some p" "p \<noteq> []" by auto
    with g e have "s' = s\<lparr>promises := promises s @ [PExists u u], fs_log := fs_log s @ [Exists p]\<rparr>"
      by (auto simp: get_def)
    with I show ?thesis by (simp add: imm_ok_def)
  qed
qed

lemma keyed_no_promise: "keyed s \<Longrightarrow> cache s k = None \<Longrightarrow> p \<in> set (promises s) \<Longrightarrow> entry_of p \<noteq> k"
  by (auto simp: keyed_def)

lemma imm_ok_on_entry: "keyed s \<Longrightarrow> imm_ok env s \<Longrightarrow> imm_ok env (on_entry env src h imm s)"
proof (cases "cache s (uri src)")
  case (Some e)
  assume "imm_ok env s"
  with Some show ?thesis by (auto simp: on_entry_def inherited_only_def Let_def imm_ok_def)
next
  case None
  assume K: "keyed s" and I: "imm_ok env s"
  have ne: "entry_of p \<noteq> uri src" if "p \<in> set (promises s)" for p
    using keyed_no_promise[OF K None that] .
  show ?thesis
  proof (cases "uri src \<in> set (inherited env)")
    case True
    with None I show ?thesis by (simp add: on_entry_def inherited_only_def)
  next
    case new: False
    show ?thesis
    proof (cases "imm = Some True")
      case True
      with None new have "on_entry env src h imm s = s\<lparr>cache := (cache s)(uri src \<mapsto>
           \<lparr>source = src, handlers = [h], path = Some (immutable_path env (uri src)),
            immutable = True, task = None\<rparr>)\<rparr>"
        by (simp add: on_entry_def inherited_only_def Let_def getPath_immutable immutable_path_eq)
      then show ?thesis using I ne by (auto simp: imm_ok_def)
    next
      case False
      with None new have "on_entry env src h imm s = s\<lparr>cache := (cache s)(uri src \<mapsto>
           \<lparr>source = src, handlers = [h], path = None, immutable = False, task = None\<rparr>)\<rparr>"
        by (simp add: on_entry_def inherited_only_def Let_def)
      then show ?thesis using I ne by (auto simp: imm_ok_def)
    qed
  qed
qed

lemma imm_ok_on: "keyed s \<Longrightarrow> imm_ok env s \<Longrightarrow> imm_ok env (on env src h imm s)"
  using on_shape[of env src h imm s] imm_ok_on_entry[of s env src h imm]
    imm_ok_get[of env "uri src" "on_entry env src h imm s" "on env src h imm s"]
  by (auto simp: imm_ok_threw)

lemma imm_ok_dispose: "imm_ok env s \<Longrightarrow> imm_ok env (dispose env u h s)"
  by (auto simp: dispose_def threw_def imm_ok_def split: option.splits)

lemma imm_ok_cancel: "imm_ok env s \<Longrightarrow> imm_ok env (cancel u s)"
  by (auto simp: cancel_def imm_ok_def split: option.splits)

lemma imm_ok_bust: "imm_ok env s \<Longrightarrow> imm_ok env (bust env u s)"
proof -
  assume I: "imm_ok env s"
  have I1: "imm_ok env (s\<lparr>cache := (cache s)(u \<mapsto> e\<lparr>path := None\<rparr>)\<rparr>)"
    if "cache s u = Some e" and "\<not> immutable e" for e
    using I that by (auto simp: imm_ok_def)
  have I2: "imm_ok env (threw (s\<lparr>inherited_path := inherited_path s @ [u]\<rparr>))"
    using I by (simp add: imm_ok_def threw_def)
  from bust_shape[of env u s] I I1 I2 imm_ok_get show ?thesis by metis
qed

lemma imm_ok_splice: "imm_ok env s \<Longrightarrow> imm_ok env (s\<lparr>promises := splice1 i (promises s)\<rparr>)"
  using in_splice1 by (fastforce simp: imm_ok_def)

lemma imm_ok_get_then: "imm_ok env s \<Longrightarrow> imm_ok env (get_then env k u b s)"
  by (simp add: get_then_def imm_ok_notify imm_ok_download)

lemma imm_ok_download_verified: "imm_ok env s \<Longrightarrow> imm_ok env (download_verified env k u p b s)"
  by (simp add: download_verified_def case_prod_beta imm_ok_notify imm_ok_download_catch)

lemma imm_ok_settle: "imm_ok env s \<Longrightarrow> imm_ok env (settle env i b s)"
proof (cases "length (promises s) \<le> i")
  case True
  assume "imm_ok env s" with True show ?thesis by (simp add: settle_def)
next
  case False
  assume I: "imm_ok env s"
  let ?s0 = "s\<lparr>promises := splice1 i (promises s)\<rparr>"
  have I0: "imm_ok env ?s0" using I by (rule imm_ok_splice)
  from False have mem: "promises s ! i \<in> set (promises s)" by simp
  show ?thesis
  proof (cases "promises s ! i")
    case (PExists k u)
    with False I0 show ?thesis by (simp add: settle_def Let_def imm_ok_get_then)
  next
    case (PDownload j k u p)
    with mem I have "\<forall>e. cache ?s0 k = Some e \<longrightarrow> immutable e \<longrightarrow> p = immutable_path env (uri (source e))"
      by (fastforce simp: imm_ok_def)
    with PDownload False I0 show ?thesis
      by (simp add: settle_def Let_def imm_ok_download_then imm_ok_download_catch)
  next
    case (PVerify k u p)
    with False I0 show ?thesis by (simp add: settle_def Let_def imm_ok_download_verified)
  qed
qed

lemma imm_ok_reject: "imm_ok env s \<Longrightarrow> imm_ok env (reject i s)"
proof (cases "length (promises s) \<le> i")
  case True
  assume "imm_ok env s" with True show ?thesis by (simp add: reject_def)
next
  case False
  assume I: "imm_ok env s"
  have I0: "imm_ok env (s\<lparr>promises := splice1 i (promises s)\<rparr>)" using I by (rule imm_ok_splice)
  show ?thesis
    using False I I0 by (cases "promises s ! i") (simp_all add: reject_def Let_def imm_ok_download_catch)
qed

lemma imm_ok_step: "keyed s \<Longrightarrow> imm_ok env s \<Longrightarrow> imm_ok env (step env ev s)"
  by (cases ev)
    (simp_all add: imm_ok_on imm_ok_dispose imm_ok_bust imm_ok_cancel imm_ok_settle imm_ok_reject)

lemma imm_ok_run: "keyed s \<Longrightarrow> imm_ok env s \<Longrightarrow> imm_ok env (run env evs s)"
  by (induction evs arbitrary: s) (simp_all add: imm_ok_step keyed_step)

subsection \<open>Entries stay, with their source and their flag\<close>

lemma download_fixed:
  "cache s k = Some e \<Longrightarrow>
   \<exists>e'. cache (download env k' s) k = Some e' \<and> immutable e' = immutable e \<and> source e' = source e"
  by (cases env k' s rule: download_effect) auto

lemma get_fixed:
  "get env u s = Some s' \<Longrightarrow> cache s k = Some e \<Longrightarrow>
   \<exists>e'. cache s' k = Some e' \<and> immutable e' = immutable e \<and> source e' = source e"
  using download_fixed[of s k e env u]
  by (auto simp: get_def split: option.splits if_splits)

lemma on_entry_fixed:
  "cache s k = Some e \<Longrightarrow>
   \<exists>e'. cache (on_entry env src h imm s) k = Some e' \<and> immutable e' = immutable e \<and> source e' = source e"
  by (auto simp: on_entry_def Let_def split: option.splits prod.splits)

lemma on_fixed:
  "cache s k = Some e \<Longrightarrow>
   \<exists>e'. cache (on env src h imm s) k = Some e' \<and> immutable e' = immutable e \<and> source e' = source e"
proof -
  assume c: "cache s k = Some e"
  from on_entry_fixed[OF this, of env src h imm]
  obtain e1 where e1: "cache (on_entry env src h imm s) k = Some e1" "immutable e1 = immutable e"
    "source e1 = source e" by blast
  from on_shape[of env src h imm s] show ?thesis
  proof (elim disjE)
    assume "on env src h imm s = threw s"
    with c show ?thesis by (simp add: threw_def)
  next
    assume "on env src h imm s = threw (on_entry env src h imm s)"
    with e1 show ?thesis by (simp add: threw_def)
  next
    assume "get env (uri src) (on_entry env src h imm s) = Some (on env src h imm s)"
    from get_fixed[OF this e1(1)] e1(2,3) show ?thesis by simp
  qed
qed

lemma bust_fixed:
  "cache s k = Some e \<Longrightarrow>
   \<exists>e'. cache (bust env u s) k = Some e' \<and> immutable e' = immutable e \<and> source e' = source e"
proof -
  assume c: "cache s k = Some e"
  from bust_shape[of env u s] show ?thesis
  proof (elim disjE exE conjE)
    assume "bust env u s = s"
    with c show ?thesis by simp
  next
    assume "bust env u s = threw (s\<lparr>inherited_path := inherited_path s @ [u]\<rparr>)"
    with c show ?thesis by (simp add: threw_def)
  next
    fix eu
    assume eu: "cache s u = Some eu"
      and g: "get env u (s\<lparr>cache := (cache s)(u \<mapsto> eu\<lparr>path := None\<rparr>)\<rparr>) = Some (bust env u s)"
    let ?s1 = "s\<lparr>cache := (cache s)(u \<mapsto> eu\<lparr>path := None\<rparr>)\<rparr>"
    from c eu obtain e1 where e1: "cache ?s1 k = Some e1" "immutable e1 = immutable e"
      "source e1 = source e"
      by (cases "k = u") auto
    from get_fixed[OF g e1(1)] e1(2,3) show ?thesis by simp
  qed
qed

lemma notify_fixed: "cache (fst (notify env u s)) = cache s"
  using notify_effect[of env u s] by simp

lemma download_catch_fixed:
  "cache s k = Some e \<Longrightarrow>
   \<exists>e'. cache (download_catch k' p s) k = Some e' \<and> immutable e' = immutable e \<and> source e' = source e"
  using download_catch_effect[of k' p s] by (auto split: option.splits)

lemma download_then_fixed:
  "cache s k = Some e \<Longrightarrow>
   \<exists>e'. cache (download_then k' u p s) k = Some e' \<and> immutable e' = immutable e \<and> source e' = source e"
  using download_then_effect[of k' u p s] by (auto split: option.splits)

lemma download_verified_fixed:
  "cache s k = Some e \<Longrightarrow>
   \<exists>e'. cache (download_verified env k' u p b s) k = Some e' \<and> immutable e' = immutable e
      \<and> source e' = source e"
  using download_catch_fixed[of "fst (notify env u s)" k e k' p]
  by (simp add: download_verified_def case_prod_beta notify_fixed)

lemma settle_fixed:
  "cache s k = Some e \<Longrightarrow>
   \<exists>e'. cache (settle env i b s) k = Some e' \<and> immutable e' = immutable e \<and> source e' = source e"
proof (cases "length (promises s) \<le> i")
  case True
  assume "cache s k = Some e" with True show ?thesis by (simp add: settle_def)
next
  case False
  assume c: "cache s k = Some e"
  let ?s0 = "s\<lparr>promises := splice1 i (promises s)\<rparr>"
  have c0: "cache ?s0 k = Some e" using c by simp
  show ?thesis
  proof (cases "promises s ! i")
    case (PExists k' u)
    with False c download_fixed[OF c0, of env k'] show ?thesis
      by (simp add: settle_def Let_def get_then_def notify_fixed)
  next
    case (PDownload j k' u p)
    with False download_catch_fixed[OF c0, of k' p] download_then_fixed[OF c0, of k' u p]
    show ?thesis by (simp add: settle_def Let_def)
  next
    case (PVerify k' u p)
    with False download_verified_fixed[OF c0, of env k' u p b] show ?thesis
      by (simp add: settle_def Let_def)
  qed
qed

lemma reject_fixed:
  "cache s k = Some e \<Longrightarrow>
   \<exists>e'. cache (reject i s) k = Some e' \<and> immutable e' = immutable e \<and> source e' = source e"
proof (cases "length (promises s) \<le> i")
  case True
  assume "cache s k = Some e" with True show ?thesis by (simp add: reject_def)
next
  case False
  assume c: "cache s k = Some e"
  let ?s0 = "s\<lparr>promises := splice1 i (promises s)\<rparr>"
  have c0: "cache ?s0 k = Some e" using c by simp
  show ?thesis
  proof (cases "promises s ! i")
    case (PExists k' u)
    with False c show ?thesis by (simp add: reject_def Let_def)
  next
    case (PDownload j k' u p)
    with False c show ?thesis by (simp add: reject_def Let_def)
  next
    case (PVerify k' u p)
    with False download_catch_fixed[OF c0, of k' p] show ?thesis by (simp add: reject_def Let_def)
  qed
qed

lemma step_fixed:
  "cache s k = Some e \<Longrightarrow>
   \<exists>e'. cache (step env ev s) k = Some e' \<and> immutable e' = immutable e \<and> source e' = source e"
proof (cases ev)
  case (On src h imm)
  assume "cache s k = Some e" with On show ?thesis by (simp add: on_fixed)
next
  case (Dispose u h)
  assume "cache s k = Some e" with Dispose show ?thesis
    by (auto simp: dispose_def threw_def split: option.splits)
next
  case (Bust u)
  assume "cache s k = Some e" with Bust show ?thesis by (simp add: bust_fixed)
next
  case (Cancel u)
  assume "cache s k = Some e" with Cancel show ?thesis by (auto simp: cancel_def split: option.splits)
next
  case (Settle i b)
  assume "cache s k = Some e" with Settle show ?thesis by (simp add: settle_fixed)
next
  case (Reject i)
  assume "cache s k = Some e" with Reject show ?thesis by (simp add: reject_fixed)
qed

lemma run_fixed:
  "cache s k = Some e \<Longrightarrow>
   \<exists>e'. cache (run env evs s) k = Some e' \<and> immutable e' = immutable e \<and> source e' = source e"
proof (induction evs arbitrary: s e)
  case Nil
  then show ?case by simp
next
  case (Cons ev evs)
  from step_fixed[OF Cons.prems, of env ev]
  obtain e1 where e1: "cache (step env ev s) k = Some e1" "immutable e1 = immutable e" "source e1 = source e"
    by blast
  from Cons.IH[OF e1(1)] e1(2,3) show ?case by simp
qed

lemma splice1_last: "splice1 (length xs) (xs @ [x]) = xs"
  by (simp add: splice1_def)

lemma download_path_fixed:
  "cache s k = Some e \<Longrightarrow> \<exists>e'. cache (download env k' s) k = Some e' \<and> path e' = path e"
  by (cases env k' s rule: download_effect) auto

lemma get_path_fixed:
  "get env u s = Some s' \<Longrightarrow> cache s k = Some e \<Longrightarrow> \<exists>e'. cache s' k = Some e' \<and> path e' = path e"
  using download_path_fixed[of s k e env u]
  by (auto simp: get_def split: option.splits if_splits)

subsection \<open>The catch of the promise chain\<close>

text \<open>
  The \<^verbatim>\<open>catch\<close> of \<^verbatim>\<open>download\<close> also runs when the existence check of the chain
  is rejected or a handler throws, and clears the task the entry has by then. Here a
  mutable entry is registered and its download succeeds; \<^verbatim>\<open>bust\<close> starts a second
  download; the existence check of the first is rejected, which clears the task of the
  second; the next registration starts a third download while the second is running.
\<close>

lemma catch_clears_running_task:
  "in_flight ''u'' (run example_env
       [On example_source 1 None, Settle 0 True, Bust ''u'', Reject 0, On example_source 2 None]
       (init example_env))
   = [PDownload 1 ''u'' ''u'' ''/c/00000000-0000-0000-0000-000000000000.jpg'',
      PDownload 2 ''u'' ''u'' ''/c/00000000-0000-0000-0000-000000000000.jpg'']"
  by (simp add: example_defs method_defs example_ext)

subsection \<open>What bust changes\<close>

lemma bust_effect:
  "(cache s u = None \<and> u \<notin> set (inherited env) \<longrightarrow> bust env u s = s)
   \<and> (cache s u = Some e \<and> immutable e \<longrightarrow> bust env u s = s)
   \<and> (cache s u = Some e \<and> \<not> immutable e \<longrightarrow>
        (\<forall>k. k \<noteq> u \<longrightarrow> cache (bust env u s) k = cache s k)
        \<and> delivered (bust env u s) = delivered s
        \<and> (task e \<noteq> None \<longrightarrow> bust env u s = s\<lparr>cache := (cache s)(u \<mapsto> e\<lparr>path := None\<rparr>)\<rparr>)
        \<and> (task e = None \<longrightarrow>
             cache (bust env u s) u = Some (e\<lparr>path := None, task := Some (next_job s)\<rparr>)
             \<and> issued (bust env u s) = Suc (issued s)
             \<and> in_flight u (bust env u s) = in_flight u s @ [PDownload (next_job s) u (uri (source e))
                   (fst (getPath env (uri (source e)) (Some False) (draws s)))]))"
  by (auto simp: method_defs split: option.splits prod.splits)


section \<open>Properties\<close>

text \<open>
  Counterexample to C1 as stated. Two observers register an immutable URI before anything
  is settled. The first existence check answers that the file is absent and the download
  it starts succeeds; then the second check answers that the file is absent, and a second
  download is started. When both checks answer that the file is present, none is started.
\<close>

theorem two_registrations_two_downloads:
  "issued (run example_env
       [On example_source 1 (Some True), On example_source 2 (Some True),
        Settle 0 False, Settle 1 True, Settle 0 False] (init example_env)) = 2
   \<and> issued (run example_env
       [On example_source 1 (Some True), On example_source 2 (Some True),
        Settle 0 True, Settle 0 True] (init example_env)) = 0"
  by (simp add: example_defs method_defs example_ext)

text \<open>
  C1, amended. \<^verbatim>\<open>download\<close> does nothing for an entry whose task is set, so a sequence
  of calls of \<^verbatim>\<open>on\<close> and \<^verbatim>\<open>bust\<close> for a URI whose entry has its task set starts no
  download and leaves the downloads of the entry as they are. In a run from the initial
  state in which no existence check is rejected and no handler throws, an entry has at
  most one download running: none when it has no task and exactly one when it has. Two
  registrations of a new URI that is not the name of an inherited property start exactly
  one download at once when the first one is not immutable; when it is immutable they
  start none by themselves, and exactly one is started when both existence checks have
  answered that the file is absent before that download is settled.
\<close>

theorem single_flight:
  "(cache s k = Some e \<and> task e \<noteq> None \<longrightarrow> download env k s = s)
   \<and> (cache s k = Some e \<and> task e \<noteq> None \<and> list_all (call_on k) calls \<longrightarrow>
         issued (run env calls s) = issued s \<and> in_flight k (run env calls s) = in_flight k s)
   \<and> ((\<forall>h. \<not> throws env h) \<and> list_all regular evs \<longrightarrow>
         length (in_flight k (run env evs (init env))) \<le> 1
         \<and> (cache (run env evs (init env)) k = Some e \<longrightarrow>
              (task e = None \<longrightarrow> in_flight k (run env evs (init env)) = [])
              \<and> (task e \<noteq> None \<longrightarrow> length (in_flight k (run env evs (init env))) = 1)))
   \<and> (imm \<noteq> Some True \<and> uri src \<notin> set (inherited env) \<longrightarrow>
         issued (run env [On src ha imm, On src hb imm'] (init env)) = 1)
   \<and> (uri src \<notin> set (inherited env) \<longrightarrow>
         issued (run env [On src ha (Some True), On src hb imm'] (init env)) = 0
         \<and> issued (run env [On src ha (Some True), On src hb imm', Settle 0 False, Settle 0 False]
              (init env)) = 1)"
proof -
  let ?s = "run env evs (init env)"
  have guard: "cache s k = Some e \<and> task e \<noteq> None \<longrightarrow> download env k s = s"
    using download_same[of s k env] by blast
  have calls: "cache s k = Some e \<and> task e \<noteq> None \<and> list_all (call_on k) calls \<longrightarrow>
         issued (run env calls s) = issued s \<and> in_flight k (run env calls s) = in_flight k s"
    using calls_pending[of s k e calls env] by blast
  have inv: "length (in_flight k ?s) \<le> 1
         \<and> (cache ?s k = Some e \<longrightarrow>
              (task e = None \<longrightarrow> in_flight k ?s = [])
              \<and> (task e \<noteq> None \<longrightarrow> length (in_flight k ?s) = 1))"
    if quiet: "\<forall>h. \<not> throws env h" and reg: "list_all regular evs"
  proof -
    have F: "one_flight ?s"
      using quiet reg by (simp add: one_flight_run keyed_init one_flight_init)
    have T: "task_flight ?s"
      by (simp add: task_flight_run task_flight_init)
    from F have le: "length (in_flight k ?s) \<le> 1"
      unfolding one_flight_def by blast
    have nil: "task e = None \<longrightarrow> in_flight k ?s = []" if "cache ?s k = Some e"
      using F that unfolding one_flight_def by blast
    have one: "task e \<noteq> None \<longrightarrow> length (in_flight k ?s) = 1" if "cache ?s k = Some e"
    proof
      assume "task e \<noteq> None"
      with T that have "in_flight k ?s \<noteq> []" unfolding task_flight_def by blast
      then have "length (in_flight k ?s) \<noteq> 0" by simp
      with le show "length (in_flight k ?s) = 1" by linarith
    qed
    from le nil one show ?thesis by blast
  qed
  have mut: "imm \<noteq> Some True \<and> uri src \<notin> set (inherited env) \<longrightarrow>
         issued (run env [On src ha imm, On src hb imm'] (init env)) = 1"
    using two_mutable[of imm src env ha hb imm'] by blast
  have imu: "uri src \<notin> set (inherited env) \<longrightarrow>
         issued (run env [On src ha (Some True), On src hb imm'] (init env)) = 0
         \<and> issued (run env [On src ha (Some True), On src hb imm', Settle 0 False, Settle 0 False]
              (init env)) = 1"
    using two_immutable[of src env ha hb imm'] by blast
  from guard calls inv mut imu show ?thesis by blast
qed

theorem single_flight_witness:
  "cache example_mutable ''u'' = Some \<lparr>source = example_source, handlers = [1], path = None,
       immutable = False, task = Some 0\<rparr>
   \<and> (\<forall>h. \<not> throws example_env h)
   \<and> list_all regular [On example_source 1 None]
   \<and> uri example_source \<notin> set (inherited example_env)
   \<and> in_flight ''u'' example_mutable
       = [PDownload 0 ''u'' ''u'' ''/c/00000000-0000-0000-0000-000000000000.jpg'']
   \<and> list_all (call_on ''u'') [On example_source 2 None, Bust ''u'', On example_source 3 (Some True)]
   \<and> download example_env ''u'' example_mutable = example_mutable
   \<and> issued (run example_env [On example_source 2 None, Bust ''u'', On example_source 3 (Some True)]
        example_mutable) = 1
   \<and> issued (run example_env [On example_source 1 None, On example_source 2 None] (init example_env)) = 1
   \<and> issued (run example_env [On example_source 1 (Some True), On example_source 2 None,
        Settle 0 False, Settle 0 False] (init example_env)) = 1"
  using single_flight[where env = example_env and k = "''u''" and s = example_mutable
      and e = "\<lparr>source = example_source, handlers = [1], path = None, immutable = False, task = Some 0\<rparr>"
      and calls = "[On example_source 2 None, Bust ''u'', On example_source 3 (Some True)]"
      and imm = None and src = example_source and ha = 1 and hb = 2 and imm' = None
      and evs = "[On example_source 1 None]"]
  by (simp add: example_defs method_defs example_ext)

text \<open>
  Counterexample to C2 as stated. A URI is registered without the flag and then with the
  immutable flag: the entry stays mutable, it has no path, and its download goes to a
  random path, not to the path that \<^verbatim>\<open>getPath\<close> gives the URI with the flag.
\<close>

theorem mutable_entry_registered_immutable:
  "cache (run example_env [On example_source 1 None, On example_source 2 (Some True)]
       (init example_env)) ''u''
     = Some \<lparr>source = example_source, handlers = [1, 2], path = None, immutable = False,
          task = Some 0\<rparr>
   \<and> promises (run example_env [On example_source 1 None, On example_source 2 (Some True)]
       (init example_env))
     = [PDownload 0 ''u'' ''u'' ''/c/00000000-0000-0000-0000-000000000000.jpg'']
   \<and> getPath example_env ''u'' (Some True) 0 = (''/c/h.jpg'', 0)"
  by (simp add: example_defs method_defs example_ext)

text \<open>
  C2, amended. For the immutable flag \<^verbatim>\<open>getPath\<close> depends on the URI alone: the result
  is the cache directory, the hash of the URI and the extension, whatever the number of
  random draws, and no draw is made. When a URI that has no entry, and is not the name of
  an inherited property, is registered with the immutable flag, \<^verbatim>\<open>on\<close> creates an
  immutable entry with this path before it returns: at that point no download has been
  started, only the existence check of the path is outstanding. When the URI has an entry
  already, a registration leaves the flag, the path and the source of the entry as they
  are, whatever flag it is given.
\<close>

theorem immutable_path_deterministic:
  "getPath env u (Some True) n = (BASE_DIR env @ ''/'' @ SHA1 env u @ getPath_ext u, n)
   \<and> (cache s (uri src) = None \<and> uri src \<notin> set (inherited env) \<longrightarrow>
        (\<exists>e. cache (on env src handler (Some True) s) (uri src) = Some e
           \<and> immutable e
           \<and> path e = Some (BASE_DIR env @ ''/'' @ SHA1 env (uri src) @ getPath_ext (uri src))
           \<and> task e = None)
        \<and> issued (on env src handler (Some True) s) = issued s
        \<and> promises (on env src handler (Some True) s) = promises s @ [PExists (uri src) (uri src)])
   \<and> (cache s (uri src) = Some e \<longrightarrow>
        (\<exists>e'. cache (on env src handler imm s) (uri src) = Some e'
           \<and> immutable e' = immutable e \<and> path e' = path e \<and> source e' = source e))"
proof (intro conjI impI)
  show "getPath env u (Some True) n = (BASE_DIR env @ ''/'' @ SHA1 env u @ getPath_ext u, n)"
    by (rule getPath_immutable)
next
  assume new: "cache s (uri src) = None \<and> uri src \<notin> set (inherited env)"
  then show "\<exists>e. cache (on env src handler (Some True) s) (uri src) = Some e
           \<and> immutable e
           \<and> path e = Some (BASE_DIR env @ ''/'' @ SHA1 env (uri src) @ getPath_ext (uri src))
           \<and> task e = None"
    by (simp add: method_defs)
  from new show "issued (on env src handler (Some True) s) = issued s"
    by (simp add: method_defs)
  from new show "promises (on env src handler (Some True) s) = promises s @ [PExists (uri src) (uri src)]"
    by (simp add: method_defs)
next
  assume own: "cache s (uri src) = Some e"
  let ?s1 = "s\<lparr>cache := (cache s)(uri src \<mapsto> e\<lparr>handlers := handlers e @ [handler]\<rparr>)\<rparr>"
  have g: "get env (uri src) ?s1 = Some (on env src handler imm s)"
    using own by (rule on_own)
  have c1: "cache ?s1 (uri src) = Some (e\<lparr>handlers := handlers e @ [handler]\<rparr>)" by simp
  from get_fixed[OF g c1] get_path_fixed[OF g c1]
  show "\<exists>e'. cache (on env src handler imm s) (uri src) = Some e'
           \<and> immutable e' = immutable e \<and> path e' = path e \<and> source e' = source e"
    by auto
qed

theorem immutable_path_deterministic_witness:
  "cache (init example_env) (uri example_source) = None
   \<and> uri example_source \<notin> set (inherited example_env)
   \<and> cache (on example_env example_source 1 (Some True) (init example_env)) ''u''
       = Some \<lparr>source = example_source, handlers = [1], path = Some ''/c/h.jpg'',
            immutable = True, task = None\<rparr>
   \<and> getPath example_env ''u'' (Some True) 5 = (''/c/h.jpg'', 5)
   \<and> cache example_mutable (uri example_source) = Some \<lparr>source = example_source, handlers = [1],
       path = None, immutable = False, task = Some 0\<rparr>
   \<and> cache (on example_env example_source 2 (Some True) example_mutable) ''u''
       = Some \<lparr>source = example_source, handlers = [1, 2], path = None, immutable = False,
            task = Some 0\<rparr>"
  using immutable_path_deterministic[where env = example_env and s = "init example_env"
      and src = example_source and handler = 1 and u = "''u''" and n = 5]
    immutable_path_deterministic[where env = example_env and s = example_mutable
      and src = example_source and handler = 2 and imm = "Some True"
      and e = "\<lparr>source = example_source, handlers = [1], path = None, immutable = False,
         task = Some 0\<rparr>"]
  by (simp add: example_defs method_defs example_ext)




text \<open>
  C4. The path of an immutable entry is set when \<^verbatim>\<open>on\<close> creates the entry (under the
  name of an inherited property no entry is created) and is the same in every later
  state: in a state reached by a run, an immutable entry under the key \<open>k\<close> has the path
  that \<^verbatim>\<open>getPath\<close> gives \<open>k\<close>, every download of the entry that is running has that path
  as its destination (which is what its success stores), and after any further events
  the entry is still there, immutable, with the same path.
\<close>

theorem immutable_path_fixed:
  "(cache s (uri src) = None \<and> uri src \<notin> set (inherited env) \<longrightarrow>
      (\<exists>e. cache (on_entry env src handler (Some True) s) (uri src) = Some e \<and> immutable e
         \<and> path e = Some (BASE_DIR env @ ''/'' @ SHA1 env (uri src) @ getPath_ext (uri src))))
   \<and> (cache s (uri src) = None \<and> uri src \<in> set (inherited env) \<longrightarrow>
        on_entry env src handler imm s = s)
   \<and> (cache (run env evs (init env)) k = Some e \<and> immutable e \<longrightarrow>
        path e = Some (BASE_DIR env @ ''/'' @ SHA1 env k @ getPath_ext k)
        \<and> (\<exists>e'. cache (run env (evs @ evs') (init env)) k = Some e' \<and> immutable e' \<and> path e' = path e)
        \<and> (\<forall>p \<in> set (promises (run env evs (init env))). is_download p \<and> entry_of p = k \<longrightarrow>
              dest_of p = BASE_DIR env @ ''/'' @ SHA1 env k @ getPath_ext k))"
proof (intro conjI impI)
  assume "cache s (uri src) = None \<and> uri src \<notin> set (inherited env)"
  then show "\<exists>e. cache (on_entry env src handler (Some True) s) (uri src) = Some e \<and> immutable e
         \<and> path e = Some (BASE_DIR env @ ''/'' @ SHA1 env (uri src) @ getPath_ext (uri src))"
    by (simp add: on_entry_def inherited_only_def Let_def getPath_immutable)
next
  assume "cache s (uri src) = None \<and> uri src \<in> set (inherited env)"
  then show "on_entry env src handler imm s = s"
    by (simp add: on_entry_def inherited_only_def)
next
  assume a: "cache (run env evs (init env)) k = Some e \<and> immutable e"
  let ?s = "run env evs (init env)"
  have K: "keyed ?s" by (simp add: keyed_run keyed_init)
  have I: "imm_ok env ?s" by (simp add: imm_ok_run keyed_init imm_ok_init)
  from K a have u: "uri (source e) = k" by (auto simp: keyed_def)
  from I a u have p: "path e = Some (immutable_path env k)" by (auto simp: imm_ok_def)
  then show "path e = Some (BASE_DIR env @ ''/'' @ SHA1 env k @ getPath_ext k)"
    by (simp add: immutable_path_eq)
  from a run_fixed[of ?s k e env evs']
  obtain e' where e': "cache (run env (evs @ evs') (init env)) k = Some e'" "immutable e' = immutable e"
    "source e' = source e" by (auto simp: run_append)
  have "imm_ok env (run env (evs @ evs') (init env))" by (simp add: imm_ok_run keyed_init imm_ok_init)
  with e' a u have "path e' = Some (immutable_path env k)" by (auto simp: imm_ok_def)
  with p e' a show "\<exists>e'. cache (run env (evs @ evs') (init env)) k = Some e' \<and> immutable e' \<and> path e' = path e"
    by simp
  show "\<forall>p \<in> set (promises ?s). is_download p \<and> entry_of p = k \<longrightarrow>
              dest_of p = BASE_DIR env @ ''/'' @ SHA1 env k @ getPath_ext k"
    using I a u by (auto simp: imm_ok_def immutable_path_eq)
qed

theorem immutable_path_fixed_witness:
  "cache (init example_env) (uri example_source) = None
   \<and> uri example_source \<notin> set (inherited example_env)
   \<and> cache (run example_env [On example_source 1 (Some True), Settle 0 False] (init example_env)) ''u''
       = Some \<lparr>source = example_source, handlers = [1], path = Some ''/c/h.jpg'',
            immutable = True, task = Some 0\<rparr>
   \<and> promises (run example_env [On example_source 1 (Some True), Settle 0 False] (init example_env))
       = [PDownload 0 ''u'' ''u'' ''/c/h.jpg'']
   \<and> map_option path (cache (run example_env ([On example_source 1 (Some True), Settle 0 False]
          @ [Settle 0 True, Settle 0 True, Bust ''u'', Cancel ''u'', On example_source 2 None, Settle 0 False,
             Settle 0 False]) (init example_env)) ''u'')
       = Some (Some ''/c/h.jpg'')
   \<and> map_option path (cache (run example_env ([On example_source 1 (Some True), Settle 0 False]
          @ [Settle 0 True, Reject 0, On example_source 2 None, Settle 0 False, Settle 0 True])
          (init example_env)) ''u'')
       = Some (Some ''/c/h.jpg'')"
  using immutable_path_fixed[where env = example_env and s = "init example_env" and src = example_source
      and handler = 1 and evs = "[On example_source 1 (Some True), Settle 0 False]" and k = "''u''"
      and e = "\<lparr>source = example_source, handlers = [1], path = Some ''/c/h.jpg'',
            immutable = True, task = Some 0\<rparr>"
      and evs' = "[Settle 0 True, Settle 0 True, Bust ''u'', Cancel ''u'', On example_source 2 None,
             Settle 0 False, Settle 0 False]"]
    immutable_path_fixed[where env = example_env and s = "init example_env" and src = example_source
      and handler = 1 and evs = "[On example_source 1 (Some True), Settle 0 False]" and k = "''u''"
      and e = "\<lparr>source = example_source, handlers = [1], path = Some ''/c/h.jpg'',
            immutable = True, task = Some 0\<rparr>"
      and evs' = "[Settle 0 True, Reject 0, On example_source 2 None, Settle 0 False, Settle 0 True]"]
  by (simp add: example_defs method_defs example_ext)

text \<open>
  C5 fails on the code. A handler registered twice in a row for a URI is still in the
  list after \<^verbatim>\<open>dispose\<close>: removing the first occurrence moves the second one to the
  index just visited, and the loop goes on with the next index.
\<close>

theorem dispose_adjacent_duplicates:
  "map_option handlers (cache (run example_env
       [On example_source 1 None, On example_source 1 None, Dispose ''u'' 1] (init example_env)) ''u'')
   = Some [1]"
  by (simp add: example_defs method_defs dispose_loop.simps)

text \<open>
  C6 fails on the code. With a dot in the query string the last dot of the segment lies
  behind the question mark, \<^verbatim>\<open>substring\<close> swaps its arguments, and the extension of
  \<^verbatim>\<open>https://x/a.png?v=1.2\<close> is the default one. Without a query string the extension
  starts at the first dot of the segment, not at the last.
\<close>

theorem getPath_ext_query_dot:
  "getPath_ext ''https://x/a.png?v=1.2'' = ''.jpg'' \<and> getPath_ext ''https://x/a.b.png'' = ''.b.png''"
  by code_simp

text \<open>
  C7 fails on the code. On a new cache \<^verbatim>\<open>bust('constructor')\<close> is called, a URI the
  index has no entry for: the lookup finds the inherited constructor, which is not
  \<^verbatim>\<open>undefined\<close> and has no \<^verbatim>\<open>immutable\<close>, so \<^verbatim>\<open>path\<close> is written on it, and
  \<^verbatim>\<open>download\<close> throws on its missing \<^verbatim>\<open>source\<close>. The call is not without effect.
\<close>

theorem bust_inherited_name:
  "cache (init example_env) ''constructor'' = None
   \<and> bust example_env ''constructor'' (init example_env)
     = (init example_env)\<lparr>thrown := 1, inherited_path := [''constructor'']\<rparr>"
  by (simp add: example_defs method_defs)

text \<open>
  C8. When a download fails, which is also how a cancelled download ends, the task of
  the entry is cleared, the file at the destination is deleted, and no handler is called.
  Nothing else is recorded in the entry, and a download can be started again: \<^verbatim>\<open>bust\<close>
  on a mutable entry starts one, and so does \<^verbatim>\<open>on\<close>, either at once (the entry has
  no path) or when the existence check of its path has answered that the file is absent.
\<close>

theorem download_failure:
  "i < length (promises s) \<and> promises s ! i = PDownload j k u d \<and> cache s k = Some e \<longrightarrow>
     cache (settle env i False s) = (cache s)(k \<mapsto> e\<lparr>task := None\<rparr>)
     \<and> promises (settle env i False s) = splice1 i (promises s)
     \<and> fs_log (settle env i False s) = fs_log s @ [Unlink d]
     \<and> delivered (settle env i False s) = delivered s
     \<and> (\<not> immutable e \<longrightarrow>
          issued (bust env k (settle env i False s)) = Suc (issued (settle env i False s)))
     \<and> (uri src = k \<and> (path e = None \<or> path e = Some []) \<longrightarrow>
          issued (on env src handler imm (settle env i False s)) = Suc (issued (settle env i False s)))
     \<and> (uri src = k \<and> path e \<noteq> None \<and> path e \<noteq> Some [] \<longrightarrow>
          issued (on env src handler imm (settle env i False s)) = issued (settle env i False s)
          \<and> issued (settle env (length (splice1 i (promises s))) False
                 (on env src handler imm (settle env i False s)))
              = Suc (issued (settle env i False s)))"
proof (intro impI)
  assume a: "i < length (promises s) \<and> promises s ! i = PDownload j k u d \<and> cache s k = Some e"
  define s' where "s' = settle env i False s"
  have s': "s' = s\<lparr>promises := splice1 i (promises s), cache := (cache s)(k \<mapsto> e\<lparr>task := None\<rparr>),
      fs_log := fs_log s @ [Unlink d]\<rparr>"
    using a by (simp add: s'_def settle_def download_catch_def Let_def)
  have c: "cache s' k = Some (e\<lparr>task := None\<rparr>)" by (simp add: s')
  have b: "issued (bust env k s') = Suc (issued s')" if "\<not> immutable e"
    using that c
    by (simp add: bust_def inherited_only_def get_def download_def Let_def issued_def split: prod.splits)
  have o1: "issued (on env src handler imm s') = Suc (issued s')"
    if "uri src = k \<and> (path e = None \<or> path e = Some [])"
    using that c
    by (auto simp: on_def on_entry_def inherited_only_def get_def download_def Let_def issued_def
        split: prod.splits)
  have o2: "issued (on env src handler imm s') = issued s'
     \<and> issued (settle env (length (splice1 i (promises s))) False (on env src handler imm s')) = Suc (issued s')"
    if h: "uri src = k \<and> path e \<noteq> None \<and> path e \<noteq> Some []"
  proof -
    from h obtain p where p: "path e = Some p" "p \<noteq> []" by auto
    let ?e1 = "e\<lparr>task := None, handlers := handlers e @ [handler]\<rparr>"
    have o: "on env src handler imm s' = s'\<lparr>cache := (cache s')(k \<mapsto> ?e1),
        promises := promises s' @ [PExists k k], fs_log := fs_log s' @ [Exists p]\<rparr>"
      using h c p by (simp add: on_def on_entry_def inherited_only_def get_def Let_def)
    have len: "length (splice1 i (promises s)) = length (promises s')" by (simp add: s')
    have "settle env (length (promises s')) False (on env src handler imm s')
        = download env k (s'\<lparr>cache := (cache s')(k \<mapsto> ?e1), fs_log := fs_log s' @ [Exists p]\<rparr>)"
      unfolding o by (simp add: settle_def Let_def get_then_def splice1_last)
    moreover have "issued (download env k (s'\<lparr>cache := (cache s')(k \<mapsto> ?e1), fs_log := fs_log s' @ [Exists p]\<rparr>))
        = Suc (issued s')"
      by (simp add: download_def Let_def issued_def split: prod.splits)
    moreover have "issued (on env src handler imm s') = issued s'"
      unfolding o by (simp add: issued_def)
    ultimately show ?thesis using len by simp
  qed
  show "cache (settle env i False s) = (cache s)(k \<mapsto> e\<lparr>task := None\<rparr>)
     \<and> promises (settle env i False s) = splice1 i (promises s)
     \<and> fs_log (settle env i False s) = fs_log s @ [Unlink d]
     \<and> delivered (settle env i False s) = delivered s
     \<and> (\<not> immutable e \<longrightarrow>
          issued (bust env k (settle env i False s)) = Suc (issued (settle env i False s)))
     \<and> (uri src = k \<and> (path e = None \<or> path e = Some []) \<longrightarrow>
          issued (on env src handler imm (settle env i False s)) = Suc (issued (settle env i False s)))
     \<and> (uri src = k \<and> path e \<noteq> None \<and> path e \<noteq> Some [] \<longrightarrow>
          issued (on env src handler imm (settle env i False s)) = issued (settle env i False s)
          \<and> issued (settle env (length (splice1 i (promises s))) False
                 (on env src handler imm (settle env i False s)))
              = Suc (issued (settle env i False s)))"
    using b o1 o2 unfolding s'_def[symmetric] by (simp add: s')
qed

theorem download_failure_witness:
  "promises (cancel ''u'' example_mutable) ! 0
       = PDownload 0 ''u'' ''u'' ''/c/00000000-0000-0000-0000-000000000000.jpg''
   \<and> cache (cancel ''u'' example_mutable) ''u'' = Some \<lparr>source = example_source, handlers = [1],
       path = None, immutable = False, task = Some 0\<rparr>
   \<and> cache (run example_env [Cancel ''u'', Settle 0 False] example_mutable) ''u''
       = Some \<lparr>source = example_source, handlers = [1], path = None, immutable = False, task = None\<rparr>
   \<and> fs_log (run example_env [Cancel ''u'', Settle 0 False] example_mutable)
       = fs_log example_mutable
           @ [StopDownload 0, Unlink ''/c/00000000-0000-0000-0000-000000000000.jpg'']
   \<and> delivered (run example_env [Cancel ''u'', Settle 0 False] example_mutable) = []
   \<and> issued (run example_env [Cancel ''u'', Settle 0 False] example_mutable) = 1
   \<and> issued (run example_env [Cancel ''u'', Settle 0 False, Bust ''u''] example_mutable) = 2
   \<and> issued (run example_env [Cancel ''u'', Settle 0 False, On example_source 2 None] example_mutable) = 2
   \<and> cache (settle example_env 0 False example_immutable) ''u'' = Some \<lparr>source = example_source,
       handlers = [1], path = Some ''/c/h.jpg'', immutable = True, task = Some 0\<rparr>
   \<and> issued (run example_env [Settle 0 False, Settle 0 False, On example_source 2 None, Settle 0 False]
        example_immutable) = 2"
  using download_failure[where env = example_env and s = "cancel ''u'' example_mutable" and i = 0
      and j = 0 and k = "''u''" and u = "''u''"
      and d = "''/c/00000000-0000-0000-0000-000000000000.jpg''"
      and e = "\<lparr>source = example_source, handlers = [1], path = None, immutable = False,
         task = Some 0\<rparr>"
      and src = example_source and handler = 2 and imm = None]
    download_failure[where env = example_env and s = "settle example_env 0 False example_immutable"
      and i = 0 and j = 0 and k = "''u''" and u = "''u''" and d = "''/c/h.jpg''"
      and e = "\<lparr>source = example_source, handlers = [1], path = Some ''/c/h.jpg'', immutable = True,
         task = Some 0\<rparr>"
      and src = example_source and handler = 2 and imm = None]
  by (simp add: example_defs method_defs example_ext)

text \<open>
  C9 fails on the code. A mutable entry is registered and its download succeeds; before
  the existence check of the file is answered, \<^verbatim>\<open>bust\<close> clears the path and starts a
  second download. The check then answers that the file is present, and \<^verbatim>\<open>notify\<close>
  calls the handler with the path the entry has now, which is \<^verbatim>\<open>undefined\<close>.
\<close>

theorem notify_after_bust_undefined:
  "delivered (run example_env [On example_source 1 None, Settle 0 True, Bust ''u'', Settle 0 True]
      (init example_env)) = [(1, None)]"
  by (simp add: example_defs method_defs)

text \<open>
  C10. \<^verbatim>\<open>cancel\<close> changes neither the index nor any entry, nor the outstanding
  promises: for an entry with a task it only asks the file system module to stop the
  job, and without entry or task it does nothing. The task stays set, so \<^verbatim>\<open>download\<close>
  does nothing after \<^verbatim>\<open>cancel\<close>, and \<^verbatim>\<open>get\<close> called next starts no download.
\<close>

theorem cancel_frame:
  "cache (cancel u s) = cache s \<and> promises (cancel u s) = promises s
   \<and> delivered (cancel u s) = delivered s \<and> next_job (cancel u s) = next_job s
   \<and> draws (cancel u s) = draws s \<and> issued (cancel u s) = issued s
   \<and> (cache s u = Some e \<and> task e = Some j \<longrightarrow>
        fs_log (cancel u s) = fs_log s @ [StopDownload j]
        \<and> download env u (cancel u s) = cancel u s
        \<and> (\<exists>s'. get env u (cancel u s) = Some s' \<and> issued s' = issued s \<and> cache s' = cache s
              \<and> in_flight u s' = in_flight u s))
   \<and> ((cache s u = None \<or> (\<exists>e. cache s u = Some e \<and> task e = None)) \<longrightarrow> cancel u s = s)"
  by (auto simp: method_defs split: option.splits)

theorem cancel_frame_witness:
  "cache example_mutable ''u'' = Some \<lparr>source = example_source, handlers = [1], path = None,
       immutable = False, task = Some 0\<rparr>
   \<and> cancel ''u'' example_mutable = example_mutable\<lparr>fs_log := fs_log example_mutable @ [StopDownload 0]\<rparr>
   \<and> get example_env ''u'' (cancel ''u'' example_mutable) = Some (cancel ''u'' example_mutable)
   \<and> cache (init example_env) ''u'' = None
   \<and> cancel ''u'' (init example_env) = init example_env"
  using cancel_frame[where env = example_env and u = "''u''" and s = example_mutable and j = 0
      and e = "\<lparr>source = example_source, handlers = [1], path = None, immutable = False, task = Some 0\<rparr>"]
    cancel_frame[where env = example_env and u = "''u''" and s = "init example_env"]
  by (simp add: example_defs method_defs)

end
